theory Spec2Isabelle
  imports Complex_Main "HOL-Library.Word"
begin

unbundle bit_operations_syntax

section \<open>Machine types and errors\<close>

text \<open>
  The sketch of \<^verbatim>\<open>hyperloglogplus.cpp\<close> works on \<^verbatim>\<open>uint8_t\<close>, \<^verbatim>\<open>uint32_t\<close> and
  \<^verbatim>\<open>uint64_t\<close>; they are words of that width. Precisions and shift amounts (\<^verbatim>\<open>uint8_t p\<close>,
  \<^verbatim>\<open>size_t p\<close>, promoted to \<^verbatim>\<open>int\<close> wherever the source shifts by them) are natural numbers;
  the source only shifts by amounts below the width when \<open>p \<le> 32\<close>, which the constructor's
  range check guarantees. A finite \<^verbatim>\<open>double\<close> is modelled as a real number: IEEE rounding
  is outside the model. Where the source divides by zero the non-finite result is
  written out (type \<open>double\<close> below).
\<close>

type_synonym uint8 = "8 word"
type_synonym uint32 = "32 word"
type_synonym uint64 = "64 word"

text \<open>
  \<open>Invalid_argument\<close> is \<^verbatim>\<open>std::invalid_argument\<close>. \<open>Out_of_bounds\<close> stands for an
  access outside a vector (a failed \<^verbatim>\<open>assert_lt\<close>, or the undefined behaviour of
  \<^verbatim>\<open>operator[]\<close>, \<^verbatim>\<open>front\<close> and \<^verbatim>\<open>back\<close>). \<open>Undefined_conversion\<close> stands for the
  conversion of a non-finite \<^verbatim>\<open>double\<close> to \<^verbatim>\<open>uint64_t\<close>, which is undefined.
\<close>

datatype error = Invalid_argument | Out_of_bounds | Undefined_conversion

text \<open>
  The values \<^verbatim>\<open>linearCounting\<close> can return: a finite number, \<open>+inf\<close> or \<open>NaN\<close>.
\<close>

datatype double = Finite_double real | Plus_infinity | Not_a_number

section \<open>Helper methods for bit operations\<close>

text \<open>
  \<^verbatim>\<open>__builtin_clz\<close> and \<^verbatim>\<open>__builtin_clzl\<close> are compiler intrinsics: the number of zero
  bits above the most significant one bit. \<open>leading_zeros n x\<close> counts them from bit
  \<open>n - 1\<close> downwards.
\<close>

fun leading_zeros :: "nat \<Rightarrow> 'a::len word \<Rightarrow> nat" where
  "leading_zeros 0 x = 0"
| "leading_zeros (Suc n) x = (if bit x n then 0 else Suc (leading_zeros n x))"

definition builtin_clz :: "uint32 \<Rightarrow> nat" where
  "builtin_clz x = leading_zeros 32 x"

definition builtin_clzl :: "uint64 \<Rightarrow> nat" where
  "builtin_clzl x = leading_zeros 64 x"

definition clz32 :: "uint32 \<Rightarrow> uint8" where
  "clz32 x = (if x = 0 then 32 else of_nat (builtin_clz x))"

definition clz64 :: "uint64 \<Rightarrow> uint8" where
  "clz64 x = (if x = 0 then 64 else of_nat (builtin_clzl x))"

definition extractBits :: "'a::len word \<Rightarrow> nat \<Rightarrow> nat \<Rightarrow> bool \<Rightarrow> 'a word" where
  "extractBits val hi lo shift_left =
     (let bitmask = push_bit lo (push_bit (hi - lo) 1 - 1);
          result = val AND bitmask
      in if \<not> shift_left then drop_bit lo result
         else push_bit (LENGTH('a) - hi) result)"

definition extractHighBits64 :: "uint64 \<Rightarrow> nat \<Rightarrow> uint64" where
  "extractHighBits64 bits hi = drop_bit (64 - hi) bits"

definition extractHighBits32 :: "uint32 \<Rightarrow> nat \<Rightarrow> uint32" where
  "extractHighBits32 bits hi = drop_bit (32 - hi) bits"

definition getIndex64 :: "uint64 \<Rightarrow> nat \<Rightarrow> uint32" where
  "getIndex64 hash_value p = ucast (drop_bit (64 - p) hash_value)"

definition getIndex32 :: "uint32 \<Rightarrow> nat \<Rightarrow> uint32" where
  "getIndex32 hash_value p = drop_bit (32 - p) hash_value"

definition trailingOnes :: "nat \<Rightarrow> 'a::len word" where
  "trailingOnes p = push_bit p 1 - 1"

definition getRank32 :: "uint32 \<Rightarrow> nat \<Rightarrow> uint8" where
  "getRank32 hash_value p =
     (let rank_bits = push_bit p hash_value OR trailingOnes p;
          rank_val = clz32 rank_bits + 1
      in rank_val)"

definition getRank64 :: "uint64 \<Rightarrow> nat \<Rightarrow> uint8" where
  "getRank64 hash_value p =
     (let rank_bits = push_bit p hash_value OR trailingOnes p;
          rank_val = clz64 rank_bits + 1
      in rank_val)"

section \<open>Methods for the sparse representation\<close>

definition getEncodedRank :: "uint32 \<Rightarrow> nat \<Rightarrow> nat \<Rightarrow> uint8" where
  "getEncodedRank encoded_hash_value pPrime p =
     (if encoded_hash_value AND 1 = 1 then
        let additional_rank = (of_nat pPrime - of_nat p :: uint8)
        in ucast ((ucast additional_rank :: uint32) + extractBits encoded_hash_value 7 1 False)
      else getRank32 encoded_hash_value p)"

definition encodeHashIn32Bit :: "uint64 \<Rightarrow> nat \<Rightarrow> nat \<Rightarrow> uint32" where
  "encodeHashIn32Bit hash_value p pPrime =
     (let idx = (ucast (push_bit (32 - pPrime) (extractHighBits64 hash_value pPrime)) :: uint32)
      in if push_bit p idx = 0 then
           let additional_rank = getRank64 hash_value pPrime
           in idx OR push_bit 1 (ucast additional_rank) OR 1
         else idx)"

text \<open>
  \<^verbatim>\<open>std::lower_bound\<close> is the standard library's: on a sorted range, the first position
  whose element is not less than \<open>val\<close> (the end when there is none).
\<close>

definition lower_bound :: "'a::linorder list \<Rightarrow> 'a \<Rightarrow> nat" where
  "lower_bound vec val = length (takeWhile (\<lambda>x. x < val) vec)"

definition addHashToSparseList :: "uint32 list \<Rightarrow> uint32 \<Rightarrow> nat \<Rightarrow> uint32 list" where
  "addHashToSparseList vec val pPrime =
     (let it = lower_bound vec val in
      if it = length vec then vec @ [val]
      else if vec ! it \<noteq> val then
        if extractHighBits32 val pPrime = extractHighBits32 (vec ! it) pPrime then
          if (vec ! it AND 1) = (val AND 1) then
            if val AND 1 = 1 then (if val > vec ! it then vec[it := val] else vec)
            else (if val < vec ! it then vec[it := val] else vec)
          else if val AND 1 = 1 then vec[it := val]
          else vec
        else take it vec @ val # drop it vec
      else vec)"

section \<open>Other Flajolet/Heule functions\<close>

definition alpha :: "nat \<Rightarrow> real" where
  "alpha n =
     (if n = 16 then 0.673 else if n = 32 then 0.697 else if n = 64 then 0.709
      else 0.7213 / (1 + 1.079 / real n))"

text \<open>
  \<^verbatim>\<open>double(m) * log(double(m)/double(v))\<close>. For \<open>v = 0\<close> the IEEE quotient is \<open>+inf\<close>
  when \<open>m > 0\<close> and \<open>NaN\<close> when \<open>m = 0\<close>; \<^verbatim>\<open>log\<close> and the product keep both.
\<close>

definition linearCounting :: "uint32 \<Rightarrow> uint32 \<Rightarrow> error + double" where
  "linearCounting m' v =
     (if v > m' then Inl Invalid_argument
      else if v = 0 then Inr (if m' = 0 then Not_a_number else Plus_infinity)
      else Inr (Finite_double (real (unat m') * ln (real (unat m') / real (unat v)))))"

definition calculateRawEstimate :: "uint8 list \<Rightarrow> real" where
  "calculateRawEstimate regs =
     (let inverseSum = fold (\<lambda>r acc. acc + 1 / 2 ^ unat r) regs 0
      in alpha (length regs) * real (length regs * length regs) * 1 / inverseSum)"

definition countZeros :: "uint8 list \<Rightarrow> uint32" where
  "countZeros s = of_nat (length (filter (\<lambda>r. r = 0) s))"

text \<open>
  The tables \<^verbatim>\<open>rawEstimateData_precision4\<close> to \<^verbatim>\<open>rawEstimateData_precision18\<close>,
  \<^verbatim>\<open>biasData_precision4\<close> to \<^verbatim>\<open>biasData_precision18\<close> and \<^verbatim>\<open>threshold\<close> are declared in
  the header, which is not among the sources: they are parameters of the estimator.
\<close>

record tables =
  rawEstimateData_precision :: "nat \<Rightarrow> real list"
  biasData_precision :: "nat \<Rightarrow> real list"
  threshold :: "nat \<Rightarrow> real"

definition rawEstimateData :: "tables \<Rightarrow> nat \<Rightarrow> real list" where
  "rawEstimateData tbl prec =
     (if 4 \<le> prec \<and> prec \<le> 18 then rawEstimateData_precision tbl prec else [])"

definition biasData :: "tables \<Rightarrow> nat \<Rightarrow> real list" where
  "biasData tbl prec =
     (if 4 \<le> prec \<and> prec \<le> 18 then biasData_precision tbl prec else [])"

definition getEstimateBias :: "tables \<Rightarrow> real \<Rightarrow> nat \<Rightarrow> error + real" where
  "getEstimateBias tbl estimate prec =
     (let rawEstimateTable = rawEstimateData tbl prec;
          biasTable = biasData tbl prec
      in if rawEstimateTable = [] \<or> biasTable = [] then Inl Out_of_bounds
         else if hd rawEstimateTable \<ge> estimate then Inr (hd biasTable)
         else if last rawEstimateTable \<le> estimate then Inr (last biasTable)
         else
           let pos = lower_bound rawEstimateTable estimate in
           if pos = 0 \<or> \<not> pos < length rawEstimateTable \<or> \<not> pos < length biasTable
           then Inl Out_of_bounds
           else
             let e1 = rawEstimateTable ! (pos - 1);
                 e2 = rawEstimateTable ! pos;
                 c = (estimate - e1) / (e2 - e1)
             in Inr (biasTable ! (pos - 1) * (1 - c) + biasTable ! pos * c))"

section \<open>The class HyperLogLogPlusMinus\<close>

text \<open>
  Modelled from the spec: the class declaration (\<^verbatim>\<open>hyperloglogplus.h\<close>) is not among the
  sources. Its members are the ones the methods use; the spec fixes the secondary
  precision \<open>p_prime = 25\<close> and \<open>m_prime = 2^25\<close>, and the sparse list as a sorted
  sequence of 32-bit words.
\<close>

definition pPrime :: nat where
  "pPrime = 25"

definition mPrime :: uint32 where
  "mPrime = 2 ^ 25"

record HyperLogLogPlusMinus =
  p :: nat
  m :: nat
  M :: "uint8 list"
  sparse :: bool
  sparseList :: "uint32 list"
  bit_mixer :: "uint64 \<Rightarrow> uint64"

text \<open>The constructor: the range check throws before the body allocates anything.\<close>

definition new_HyperLogLogPlusMinus ::
  "uint8 \<Rightarrow> bool \<Rightarrow> (uint64 \<Rightarrow> uint64) \<Rightarrow> error + HyperLogLogPlusMinus" where
  "new_HyperLogLogPlusMinus precision sp mixer =
     (if precision > 18 \<or> precision < 4 then Inl Invalid_argument
      else Inr \<lparr>p = unat precision, m = 2 ^ unat precision,
                M = (if sp then [] else replicate (2 ^ unat precision) 0),
                sparse = sp, sparseList = [], bit_mixer = mixer\<rparr>)"

text \<open>
  A mutating method returns the exception it threw, if any, and the object as the call
  left it. \<open>addToRegisters_loop\<close> is the loop of \<^verbatim>\<open>addToRegisters\<close> over the entries, with
  the registers threaded through; the index is held in a \<^verbatim>\<open>uint8_t\<close>, as in the source.
\<close>

fun addToRegisters_loop :: "nat \<Rightarrow> uint32 list \<Rightarrow> uint8 list \<Rightarrow> error option \<times> uint8 list" where
  "addToRegisters_loop prec [] regs = (None, regs)"
| "addToRegisters_loop prec (encoded_hash_value # rest) regs =
     (let idx = (ucast (getIndex32 encoded_hash_value prec) :: uint8) in
      if \<not> unat idx < length regs then (Some Out_of_bounds, regs)
      else
        let rank_val = getEncodedRank encoded_hash_value pPrime prec
        in addToRegisters_loop prec rest
             (if rank_val > regs ! unat idx then regs[unat idx := rank_val] else regs))"

definition addToRegisters ::
  "HyperLogLogPlusMinus \<Rightarrow> uint32 list \<Rightarrow> error option \<times> HyperLogLogPlusMinus" where
  "addToRegisters this lst =
     (if length lst = 0 then (None, this)
      else case addToRegisters_loop (p this) lst (M this) of
             (e, regs) \<Rightarrow> (e, this\<lparr>M := regs\<rparr>))"

definition switchToNormalRepresentation ::
  "HyperLogLogPlusMinus \<Rightarrow> error option \<times> HyperLogLogPlusMinus" where
  "switchToNormalRepresentation this =
     (let s1 = this\<lparr>sparse := False, M := replicate (m this) 0\<rparr> in
      if length (sparseList s1) > 0 then
        case addToRegisters s1 (sparseList s1) of
          (Some e, s2) \<Rightarrow> (Some e, s2)
        | (None, s2) \<Rightarrow> (None, s2\<lparr>sparseList := []\<rparr>)
      else (None, s1))"

definition add :: "HyperLogLogPlusMinus \<Rightarrow> uint64 \<Rightarrow> error option \<times> HyperLogLogPlusMinus" where
  "add this item =
     (let hash_value = bit_mixer this item in
      if sparse this then
        let encoded_hash_value = encodeHashIn32Bit hash_value (p this) pPrime;
            s1 = this\<lparr>sparseList :=
                        addHashToSparseList (sparseList this) encoded_hash_value pPrime\<rparr>
        in if length (sparseList s1) > m this div 4 then switchToNormalRepresentation s1
           else (None, s1)
      else
        let idx = unat (getIndex64 hash_value (p this));
            rank = getRank64 hash_value (p this)
        in if \<not> idx < length (M this) then (Some Out_of_bounds, this)
           else if rank > M this ! idx then (None, this\<lparr>M := (M this)[idx := rank]\<rparr>)
           else (None, this))"

definition reset :: "HyperLogLogPlusMinus \<Rightarrow> HyperLogLogPlusMinus" where
  "reset this = this\<lparr>sparse := True, sparseList := [], M := []\<rparr>"

text \<open>
  The register loop of the merge: \<open>i\<close> is the loop counter and the list the registers
  of \<open>other\<close> from position \<open>i\<close> on.
\<close>

fun merge_registers :: "nat \<Rightarrow> uint8 list \<Rightarrow> uint8 list \<Rightarrow> error option \<times> uint8 list" where
  "merge_registers i [] regs = (None, regs)"
| "merge_registers i (r # rest) regs =
     (if \<not> i < length regs then (Some Out_of_bounds, regs)
      else merge_registers (Suc i) rest (if r > regs ! i then regs[i := r] else regs))"

text \<open>
  \<^verbatim>\<open>add(const HyperLogLogPlusMinus* other)\<close>, the merge; \<open>other\<close> is an object distinct
  from \<open>this\<close>.
\<close>

definition add_other ::
  "HyperLogLogPlusMinus \<Rightarrow> HyperLogLogPlusMinus \<Rightarrow> error option \<times> HyperLogLogPlusMinus" where
  "add_other this other =
     (if p this \<noteq> p other then (Some Invalid_argument, this)
      else if sparse this \<and> sparse other then
        if length (sparseList this) + length (sparseList other) > m this then
          case switchToNormalRepresentation this of
            (Some e, s1) \<Rightarrow> (Some e, s1)
          | (None, s1) \<Rightarrow> addToRegisters s1 (sparseList other)
        else
          (None, this\<lparr>sparseList :=
                   fold (\<lambda>val vec. addHashToSparseList vec val pPrime)
                     (sparseList other) (sparseList this)\<rparr>)
      else if sparse other then addToRegisters this (sparseList other)
      else
        case (if sparse this then switchToNormalRepresentation this else (None, this)) of
          (Some e, s1) \<Rightarrow> (Some e, s1)
        | (None, s1) \<Rightarrow>
            (case merge_registers 0 (M other) (M s1) of
               (e, regs) \<Rightarrow> (e, s1\<lparr>M := regs\<rparr>)))"

text \<open>
  \<^verbatim>\<open>heuleCardinality\<close>, which \<^verbatim>\<open>cardinality\<close> returns. The conversion \<^verbatim>\<open>uint64_t(double)\<close>
  of a non-negative value discards its fractional part; \<^verbatim>\<open>std::round\<close> rounds to the
  nearest integer, halves away from zero.
\<close>

definition double_to_uint64 :: "real \<Rightarrow> uint64" where
  "double_to_uint64 x = word_of_int \<lfloor>x\<rfloor>"

definition to_uint64 :: "double \<Rightarrow> error + uint64" where
  "to_uint64 d =
     (case d of
        Finite_double x \<Rightarrow> Inr (double_to_uint64 x)
      | Plus_infinity \<Rightarrow> Inl Undefined_conversion
      | Not_a_number \<Rightarrow> Inl Undefined_conversion)"

definition std_round :: "real \<Rightarrow> real" where
  "std_round x = (if 0 \<le> x then of_int \<lfloor>x + 1 / 2\<rfloor> else - of_int \<lfloor>- x + 1 / 2\<rfloor>)"

definition raw_estimate_path :: "tables \<Rightarrow> HyperLogLogPlusMinus \<Rightarrow> error + uint64" where
  "raw_estimate_path tbl this =
     (let est = calculateRawEstimate (M this) in
      if est \<le> real (m this) * 5 then
        case getEstimateBias tbl est (p this) of
          Inl e \<Rightarrow> Inl e
        | Inr bias \<Rightarrow> Inr (double_to_uint64 (std_round (est - bias)))
      else Inr (double_to_uint64 (std_round est)))"

definition heuleCardinality :: "tables \<Rightarrow> HyperLogLogPlusMinus \<Rightarrow> error + uint64" where
  "heuleCardinality tbl this =
     (if sparse this then
        case linearCounting mPrime (mPrime - of_nat (length (sparseList this))) of
          Inl e \<Rightarrow> Inl e
        | Inr x \<Rightarrow> to_uint64 x
      else
        let v = countZeros (M this) in
        if v \<noteq> 0 then
          case linearCounting (of_nat (m this)) v of
            Inl e \<Rightarrow> Inl e
          | Inr x \<Rightarrow>
              (case to_uint64 x of
                 Inl e \<Rightarrow> Inl e
               | Inr lc_estimate \<Rightarrow>
                   if real (unat lc_estimate) \<le> threshold tbl (p this - 4) then Inr lc_estimate
                   else raw_estimate_path tbl this)
        else raw_estimate_path tbl this)"

definition cardinality :: "tables \<Rightarrow> HyperLogLogPlusMinus \<Rightarrow> error + uint64" where
  "cardinality tbl this = heuleCardinality tbl this"

section \<open>Well-formed sketches\<close>

text \<open>
  The flag bit of an encoded hash is set exactly when the bits of its index after the
  first \<open>prec\<close> ones are all zero: \<^verbatim>\<open>encodeHashIn32Bit\<close> only produces such words.
\<close>

definition encoded_ok :: "nat \<Rightarrow> uint32 \<Rightarrow> bool" where
  "encoded_ok prec e = ((e AND 1 = 1) = (push_bit prec (push_bit 7 (drop_bit 7 e)) = 0))"

text \<open>
  The states the methods keep a sketch in: the precision is in range and \<open>m = 2^p\<close>; a
  sparse sketch holds a strictly ascending list of encoded hashes (the precondition of
  \<^verbatim>\<open>std::lower_bound\<close>); a dense one holds \<open>m\<close> registers.
\<close>

definition wf_sketch :: "HyperLogLogPlusMinus \<Rightarrow> bool" where
  "wf_sketch s =
     (4 \<le> p s \<and> p s \<le> 18 \<and> m s = 2 ^ p s \<and>
      (if sparse s then sorted_wrt (<) (sparseList s) \<and> list_all (encoded_ok (p s)) (sparseList s)
       else length (M s) = m s))"

text \<open>Forcing a sketch into the dense representation.\<close>

definition force_dense :: "HyperLogLogPlusMinus \<Rightarrow> error option \<times> HyperLogLogPlusMinus" where
  "force_dense s = (if sparse s then switchToNormalRepresentation s else (None, s))"

text \<open>
  Names for proofs about the encoding at \<open>pPrime = 25\<close>: the index part of the encoded
  word, the additional rank, and the rank field of a flagged word.
\<close>

definition index25 :: "uint64 \<Rightarrow> uint32" where
  "index25 h = ucast (push_bit 7 (drop_bit 39 h))"

definition addrank :: "uint64 \<Rightarrow> nat" where
  "addrank h = Suc (leading_zeros 64 (push_bit 25 h OR mask 25))"

definition rank_field :: "nat \<Rightarrow> uint32" where
  "rank_field q = push_bit 1 (of_nat q)"

text \<open>
  The register index and the rank \<^verbatim>\<open>addToRegisters\<close> computes for an entry, and the ranks
  the entries of a list bring to register \<open>i\<close>.
\<close>

definition reg_idx :: "nat \<Rightarrow> uint32 \<Rightarrow> nat" where
  "reg_idx prec e = unat (ucast (getIndex32 e prec) :: uint8)"

definition reg_rank :: "nat \<Rightarrow> uint32 \<Rightarrow> uint8" where
  "reg_rank prec e = getEncodedRank e pPrime prec"

definition ranks_at :: "nat \<Rightarrow> uint32 list \<Rightarrow> nat \<Rightarrow> uint8 set" where
  "ranks_at prec es i = reg_rank prec ` {e \<in> set es. reg_idx prec e = i}"

text \<open>
  What a sketch brings to register \<open>i\<close> of a merge: the ranks of its entries of that
  index when it is sparse, its register when it is dense.
\<close>

definition contrib :: "HyperLogLogPlusMinus \<Rightarrow> nat \<Rightarrow> uint8 set" where
  "contrib s i = (if sparse s then ranks_at (p s) (sparseList s) i else {M s ! i})"

section \<open>Example sketches\<close>

text \<open>
  A sparse sketch of precision 15 holding 7095 encoded hashes of distinct indices (the
  hashes \<open>i * 2^49 + 2^39\<close> for \<open>i < 7095\<close>), and the value of
  \<open>m_prime * ln (m_prime / (m_prime - 7095))\<close>. \<open>no_tables\<close> stands for the tables
  where only the sparse branch of the estimator is read.
\<close>

definition lc7095 :: real where
  "lc7095 = 33554432 * ln (33554432 / 33547337)"

definition example_entry :: "nat \<Rightarrow> uint32" where
  "example_entry i = push_bit 17 (of_nat i) + 128"

definition sparse7095 :: HyperLogLogPlusMinus where
  "sparse7095 = \<lparr>p = 15, m = 32768, M = [], sparse = True,
                  sparseList = map example_entry [0..<7095], bit_mixer = id\<rparr>"

definition no_tables :: tables where
  "no_tables = \<lparr>rawEstimateData_precision = (\<lambda>prec. []), biasData_precision = (\<lambda>prec. []),
                threshold = (\<lambda>i. 0)\<rparr>"

section \<open>Construction\<close>

text \<open>
  C7: construction succeeds for every precision from 4 to 18 and fails with
  \<^verbatim>\<open>std::invalid_argument\<close> for every other one (3 and 19 among them); a failing
  construction returns the error only, no object.
\<close>

theorem construction_range:
  "(\<exists>s. new_HyperLogLogPlusMinus precision sp mixer = Inr s) = (4 \<le> precision \<and> precision \<le> 18)
   \<and> ((\<exists>s. new_HyperLogLogPlusMinus precision sp mixer = Inr s)
        \<or> new_HyperLogLogPlusMinus precision sp mixer = Inl Invalid_argument)
   \<and> new_HyperLogLogPlusMinus 3 sp mixer = Inl Invalid_argument
   \<and> new_HyperLogLogPlusMinus 19 sp mixer = Inl Invalid_argument
   \<and> (\<exists>s. new_HyperLogLogPlusMinus 4 sp mixer = Inr s)
   \<and> (\<exists>s. new_HyperLogLogPlusMinus 18 sp mixer = Inr s)"
  by (auto simp add: new_HyperLogLogPlusMinus_def not_less not_le)

section \<open>Counting leading zeros\<close>

lemma leading_zeros_numeral:
  "leading_zeros (numeral k) x =
     (if bit x (pred_numeral k) then 0 else Suc (leading_zeros (pred_numeral k) x))"
  by (simp add: numeral_eq_Suc)

lemma leading_zeros_le: "leading_zeros n x \<le> n"
  by (induction n) auto

lemma leading_zeros_cong:
  fixes x :: "'a::len word" and y :: "'b::len word"
  shows "d \<le> n \<Longrightarrow> d \<le> n' \<Longrightarrow> (\<forall>i<d. bit x (n - 1 - i) = bit y (n' - 1 - i))
    \<Longrightarrow> (\<exists>i<d. bit x (n - 1 - i)) \<Longrightarrow> leading_zeros n x = leading_zeros n' y"
proof (induction d arbitrary: n n')
  case 0
  then show ?case by simp
next
  case (Suc d)
  from Suc.prems obtain k k' where nk: "n = Suc k" "n' = Suc k'"
    by (metis Suc_le_D)
  from Suc.prems(3) have top: "bit x k = bit y k'"
    using nk by (metis Zero_not_Suc diff_Suc_1 diff_zero not_gr_zero)
  show ?case
  proof (cases "bit x k")
    case True
    with top show ?thesis by (simp add: nk)
  next
    case False
    have a: "\<forall>i<d. bit x (k - 1 - i) = bit y (k' - 1 - i)"
    proof (intro allI impI)
      fix i assume "i < d"
      then have "bit x (n - 1 - Suc i) = bit y (n' - 1 - Suc i)"
        using Suc.prems(3) by simp
      then show "bit x (k - 1 - i) = bit y (k' - 1 - i)" by (simp add: nk)
    qed
    from Suc.prems(4) obtain j where j: "j < Suc d" "bit x (n - 1 - j)" by blast
    with False have "j \<noteq> 0" by (auto simp: nk intro: ccontr)
    then obtain j' where "j = Suc j'" by (cases j) auto
    with j have b: "\<exists>i<d. bit x (k - 1 - i)" by (auto simp: nk)
    have "leading_zeros k x = leading_zeros k' y"
      using Suc.IH [of k k'] a b Suc.prems(1,2) by (simp add: nk)
    with False top show ?thesis by (simp add: nk)
  qed
qed

lemma leading_zeros_skip:
  "d \<le> n \<Longrightarrow> (\<forall>i<d. \<not> bit x (n - 1 - i)) \<Longrightarrow> leading_zeros n x = d + leading_zeros (n - d) x"
proof (induction d arbitrary: n)
  case 0
  then show ?case by simp
next
  case (Suc d)
  then obtain k where nk: "n = Suc k" by (metis Suc_le_D)
  from Suc.prems(2) have "\<not> bit x k" using nk by (metis diff_Suc_1 diff_zero zero_less_Suc)
  moreover have "\<forall>i<d. \<not> bit x (k - 1 - i)"
  proof (intro allI impI)
    fix i assume "i < d"
    then have "\<not> bit x (n - 1 - Suc i)" using Suc.prems(2) by simp
    then show "\<not> bit x (k - 1 - i)" by (simp add: nk)
  qed
  ultimately show ?case using Suc.IH [of k] Suc.prems(1) by (simp add: nk)
qed

section \<open>The encoding round trip\<close>

lemma nat_bit_bound: "(n::nat) < 2 ^ j \<Longrightarrow> bit n k \<Longrightarrow> k < j"
proof (rule ccontr)
  assume a: "n < 2 ^ j" "bit n k" "\<not> k < j"
  then have "(2::nat) ^ j \<le> 2 ^ k" by (intro power_increasing) auto
  with a have "n < 2 ^ k" by linarith
  then have "n div 2 ^ k = 0" by simp
  with a show False by (simp add: bit_iff_odd)
qed

lemma ucast_of_nat_up: "n < 256 \<Longrightarrow> ucast (of_nat n :: uint8) = (of_nat n :: uint32)"
  by (simp add: word_unat_eq_iff unsigned_ucast_eq unsigned_of_nat take_bit_eq_mod)

lemma ucast_of_nat_down: "ucast (of_nat n :: uint32) = (of_nat n :: uint8)"
  by (simp add: word_unat_eq_iff unsigned_ucast_eq unsigned_of_nat take_bit_eq_mod mod_mod_cancel)

lemma flag_iff_bit0: "(x :: uint32) AND 1 = 1 \<longleftrightarrow> bit x 0"
  by (simp add: and_one_eq bit_0 mod_2_eq_odd)

lemma leading_zeros_bit_less:
  "k < n \<Longrightarrow> bit x k \<Longrightarrow> leading_zeros n x < n - k"
proof (induction n)
  case 0
  then show ?case by simp
next
  case (Suc n)
  show ?case
  proof (cases "bit x n")
    case True
    with Suc.prems show ?thesis by simp
  next
    case False
    with Suc.prems have "k < n" by (metis less_Suc_eq)
    with Suc False show ?thesis by simp
  qed
qed

lemma trailingOnes_mask: "trailingOnes n = mask n"
  by (simp add: trailingOnes_def mask_eq_exp_minus_1 push_bit_eq_mult)

lemma clz32_eq: "clz32 x = of_nat (leading_zeros 32 x)"
  by (simp add: clz32_def builtin_clz_def eval_nat_numeral)

lemma clz64_eq: "clz64 x = of_nat (leading_zeros 64 x)"
  by (simp add: clz64_def builtin_clzl_def eval_nat_numeral)

lemma getRank64_eq: "getRank64 h n = of_nat (Suc (leading_zeros 64 (push_bit n h OR mask n)))"
  by (simp add: getRank64_def clz64_eq trailingOnes_mask)

lemma getRank32_eq: "getRank32 h n = of_nat (Suc (leading_zeros 32 (push_bit n h OR mask n)))"
  by (simp add: getRank32_def clz32_eq trailingOnes_mask)

lemma additional_rank_bound:
  "leading_zeros 64 (push_bit 25 (h::uint64) OR mask 25) < 40"
proof -
  have "bit (push_bit 25 h OR mask 25) 24" by (simp add: bit_simps)
  from leading_zeros_bit_less [OF _ this, of 64] show ?thesis by simp
qed

lemma addrank_bound: "addrank h < 64" "addrank h < 256" "0 < addrank h"
  using additional_rank_bound [of h] by (simp_all add: addrank_def)

lemma getRank64_addrank: "getRank64 h 25 = of_nat (addrank h)"
  by (simp only: getRank64_eq addrank_def)

lemma bit_index25:
  "bit (index25 h) k = (7 \<le> k \<and> k < 32 \<and> bit h (k + 32))"
  by (auto simp add: index25_def bit_simps add.commute)

lemma encode_cases:
  "encodeHashIn32Bit h prec pPrime =
     (if push_bit prec (index25 h) = 0
      then index25 h OR rank_field (addrank h) OR 1
      else index25 h)"
  by (simp add: encodeHashIn32Bit_def pPrime_def extractHighBits64_def index25_def
        getRank64_addrank ucast_of_nat_up addrank_bound Let_def rank_field_def)

lemma bit_extractBits:
  "bit (extractBits v hi lo False) n = (n < hi - lo \<and> bit v (n + lo))"
  by (auto simp add: extractBits_def Let_def bit_simps add.commute
      simp flip: mask_eq_exp_minus_1 dest: bit_imp_le_length)

lemma bit_rank_field:
  "bit (rank_field q) k = (1 \<le> k \<and> k < 32 \<and> bit q (k - 1))"
proof -
  have "bit (rank_field q) k = bit (push_bit 1 (of_nat q) :: uint32) k"
    by (simp only: rank_field_def)
  also have "\<dots> = (1 \<le> k \<and> k < LENGTH(32) \<and> bit (of_nat q :: uint32) (k - 1))"
    by (simp only: bit_push_bit_iff possible_bit_word)
  also have "\<dots> = (1 \<le> k \<and> k < 32 \<and> bit q (k - 1))"
    by (auto simp add: bit_of_nat_iff)
  finally show ?thesis .
qed

lemma extract_rank_field:
  assumes "q < 64"
  shows "extractBits (index25 h OR rank_field q OR 1) 7 1 False = of_nat q"
proof (rule bit_word_eqI)
  fix n assume n: "n < LENGTH(32)"
  have b: "bit q n \<Longrightarrow> n < 6"
    by (rule nat_bit_bound [of _ 6]) (use assms in simp_all)
  show "bit (extractBits (index25 h OR rank_field q OR 1) 7 1 False) n
          = bit (of_nat q :: uint32) n"
    using b n
    by (auto simp add: bit_extractBits bit_or_iff bit_index25 bit_rank_field bit_1_iff
        bit_of_nat_iff)
qed

lemma bit_encode_high:
  assumes "7 \<le> k"
  shows "bit (encodeHashIn32Bit h prec pPrime) k = (k < 32 \<and> bit h (k + 32))"
proof -
  have "bit (addrank h) (k - 1) \<Longrightarrow> k - 1 < 6"
    by (rule nat_bit_bound [of _ 6]) (use addrank_bound [of h] in simp_all)
  with assms show ?thesis
    by (auto simp add: encode_cases bit_or_iff bit_index25 bit_rank_field bit_1_iff)
qed

lemma index_roundtrip:
  assumes "4 \<le> prec" "prec \<le> 18"
  shows "getIndex32 (encodeHashIn32Bit h prec pPrime) prec = getIndex64 h prec"
proof (rule bit_word_eqI)
  fix n assume "n < LENGTH(32)"
  show "bit (getIndex32 (encodeHashIn32Bit h prec pPrime) prec) n = bit (getIndex64 h prec) n"
  proof (cases "n < prec")
    case True
    with assms have "7 \<le> 32 - prec + n" by simp
    from bit_encode_high [OF this, of h prec] True assms show ?thesis
      by (auto simp add: getIndex32_def getIndex64_def bit_simps add.commute)
  next
    case False
    with assms show ?thesis
      by (auto simp add: getIndex32_def getIndex64_def bit_simps dest!: bit_imp_le_length)
  qed
qed

lemma rank_roundtrip_flag0:
  assumes p: "4 \<le> prec" "prec \<le> 18" and nz: "push_bit prec (index25 h) \<noteq> 0"
  shows "getEncodedRank (index25 h) pPrime prec = getRank64 h prec"
proof -
  let ?x = "push_bit prec (index25 h) OR mask prec :: uint32"
  let ?y = "push_bit prec h OR mask prec :: uint64"
  have flag: "\<not> bit (index25 h) 0" by (simp add: bit_index25)
  have same: "\<forall>i<25 - prec. bit ?x (32 - 1 - i) = bit ?y (64 - 1 - i)"
    using p by (auto simp add: bit_simps bit_index25)
  from nz obtain k where k: "bit (push_bit prec (index25 h)) k"
    by (auto simp: bit_eq_iff)
  then have k': "prec + 7 \<le> k" "k < 32"
    by (auto simp add: bit_simps bit_index25)
  have "\<exists>i<25 - prec. bit ?x (32 - 1 - i)"
  proof (intro exI conjI)
    show "31 - k < 25 - prec" using k' p by simp
    show "bit ?x (32 - 1 - (31 - k))" using k k' by (simp add: bit_or_iff)
  qed
  with same have "leading_zeros 32 ?x = leading_zeros 64 ?y"
    by (intro leading_zeros_cong [of "25 - prec"]) (use p in simp_all)
  with flag show ?thesis
    by (simp add: getEncodedRank_def flag_iff_bit0 getRank32_eq getRank64_eq)
qed

lemma rank_roundtrip_flag1:
  assumes p: "4 \<le> prec" "prec \<le> 18" and z: "push_bit prec (index25 h) = 0"
  shows "getEncodedRank (index25 h OR rank_field (addrank h) OR 1) pPrime prec = getRank64 h prec"
proof -
  let ?y = "push_bit prec h OR mask prec :: uint64"
  let ?z = "push_bit 25 h OR mask 25 :: uint64"
  have hz: "\<not> bit h j" if "39 \<le> j" "j < 64 - prec" for j
  proof -
    have "\<not> bit (push_bit prec (index25 h)) (j - 32 + prec)" by (simp add: z)
    with that p show ?thesis by (simp add: bit_simps bit_index25)
  qed
  have skip: "leading_zeros 64 ?y = (25 - prec) + leading_zeros (64 - (25 - prec)) ?y"
  proof (rule leading_zeros_skip)
    show "25 - prec \<le> 64" by simp
    show "\<forall>i<25 - prec. \<not> bit ?y (64 - 1 - i)"
      using p hz by (auto simp add: bit_simps)
  qed
  have "leading_zeros (39 + prec) ?y = leading_zeros 64 ?z"
  proof (rule leading_zeros_cong [of 40])
    show "40 \<le> 39 + prec" using p by simp
    show "(40::nat) \<le> 64" by simp
    show "\<forall>i<40. bit ?y (39 + prec - 1 - i) = bit ?z (64 - 1 - i)"
      using p by (auto simp add: bit_simps)
    show "\<exists>i<40. bit ?y (39 + prec - 1 - i)"
      using p by (intro exI [of _ 39]) (auto simp add: bit_simps)
  qed
  moreover have "64 - (25 - prec) = 39 + prec" using p by simp
  ultimately have lz: "Suc (leading_zeros 64 ?y) = (25 - prec) + addrank h"
    using skip by (simp add: addrank_def)
  have "(of_nat pPrime - of_nat prec :: uint8) = of_nat (25 - prec)"
    using p by (simp add: pPrime_def of_nat_diff)
  moreover have "ucast (of_nat (25 - prec) :: uint8) = (of_nat (25 - prec) :: uint32)"
    by (rule ucast_of_nat_up) simp
  moreover have "bit (index25 h OR rank_field (addrank h) OR 1) 0"
    by (simp add: bit_or_iff bit_1_iff)
  ultimately have "getEncodedRank (index25 h OR rank_field (addrank h) OR 1) pPrime prec
      = ucast (of_nat (25 - prec) + of_nat (addrank h) :: uint32)"
    by (simp add: getEncodedRank_def flag_iff_bit0 extract_rank_field [unfolded One_nat_def]
        addrank_bound)
  also have "\<dots> = ucast (of_nat (25 - prec + addrank h) :: uint32)" by simp
  also have "\<dots> = (of_nat (25 - prec + addrank h) :: uint8)" by (rule ucast_of_nat_down)
  also have "\<dots> = getRank64 h prec" by (simp only: getRank64_eq lz)
  finally show ?thesis .
qed

text \<open>
  C3: for every 64-bit hash and every precision from 4 to 18, with \<open>pPrime = 25\<close>,
  decoding the 32-bit encoding gives back the index and the rank of the dense mode:
  \<open>getIndex32 (encode h) = getIndex64 h\<close> and \<open>getEncodedRank (encode h) = getRank64 h\<close>.
\<close>

theorem encode_decode_roundtrip:
  assumes "4 \<le> prec" "prec \<le> 18"
  shows "getIndex32 (encodeHashIn32Bit h prec pPrime) prec = getIndex64 h prec
       \<and> getEncodedRank (encodeHashIn32Bit h prec pPrime) pPrime prec = getRank64 h prec"
  using assms index_roundtrip [of prec h] rank_roundtrip_flag0 [of prec h]
    rank_roundtrip_flag1 [of prec h]
  by (simp add: encode_cases)

theorem encode_decode_roundtrip_witness:
  "(4::nat) \<le> 14 \<and> (14::nat) \<le> 18
   \<and> getIndex32 (encodeHashIn32Bit 0x0123456789ABCDEF 14 pPrime) 14
       = getIndex64 0x0123456789ABCDEF 14
   \<and> getEncodedRank (encodeHashIn32Bit 0x0123456789ABCDEF 14 pPrime) pPrime 14
       = getRank64 0x0123456789ABCDEF 14"
  using encode_decode_roundtrip [of 14 "0x0123456789ABCDEF"] by simp

section \<open>Draining a sparse list into the registers\<close>

lemma unat_drop_bit_less:
  fixes w :: "'a::len word"
  assumes "n \<le> LENGTH('a)"
  shows "unat (drop_bit n w) < 2 ^ (LENGTH('a) - n)"
proof -
  have "unat w < 2 ^ n * 2 ^ (LENGTH('a) - n)"
    using assms unsigned_less [of w, where ?'a = nat] by (simp flip: power_add)
  then have "unat w div 2 ^ n < 2 ^ (LENGTH('a) - n)"
    by (simp add: less_mult_imp_div_less mult.commute)
  then show ?thesis unfolding unat_drop_bit_eq by (simp add: drop_bit_eq_div)
qed

lemma Max_insert_max:
  fixes a :: "'b::linorder"
  assumes "finite S"
  shows "Max (insert (max a r) S) = Max (insert a (insert r S))"
proof (cases "S = {}")
  case True
  then show ?thesis by (simp add: max.commute)
next
  case False
  with assms show ?thesis by (simp add: max.assoc)
qed

lemma getIndex32_less: "prec \<le> 32 \<Longrightarrow> unat (getIndex32 e prec) < 2 ^ prec"
  using unat_drop_bit_less [of "32 - prec" e] by (simp add: getIndex32_def)

lemma getIndex64_less: "prec \<le> 32 \<Longrightarrow> unat (getIndex64 h prec) < 2 ^ prec"
proof -
  assume "prec \<le> 32"
  then have "unat (drop_bit (64 - prec) h) < 2 ^ prec"
    using unat_drop_bit_less [of "64 - prec" h] by simp
  moreover have "unat (getIndex64 h prec) \<le> unat (drop_bit (64 - prec) h)"
    by (simp add: getIndex64_def unsigned_ucast_eq take_bit_eq_mod)
  ultimately show ?thesis by simp
qed

lemma reg_idx_less:
  assumes "4 \<le> prec" "prec \<le> 18"
  shows "reg_idx prec e < 2 ^ prec"
proof (cases "8 \<le> prec")
  case True
  have "reg_idx prec e < 2 ^ 8"
    unfolding reg_idx_def using unsigned_less [of "ucast (getIndex32 e prec) :: uint8", where ?'a = nat]
    by simp
  also have "(2::nat) ^ 8 \<le> 2 ^ prec" using True by (intro power_increasing) simp_all
  finally show ?thesis .
next
  case False
  have "reg_idx prec e \<le> unat (getIndex32 e prec)"
    by (simp add: reg_idx_def unsigned_ucast_eq take_bit_eq_mod)
  also have "\<dots> < 2 ^ prec" using assms by (intro getIndex32_less) simp
  finally show ?thesis .
qed

text \<open>Up to precision 8 the \<^verbatim>\<open>uint8_t\<close> holds the whole index.\<close>

lemma reg_idx_small:
  assumes "prec \<le> 8"
  shows "reg_idx prec e = unat (getIndex32 e prec)"
proof -
  have "unat (getIndex32 e prec) < 2 ^ prec" using assms by (intro getIndex32_less) simp
  also have "(2::nat) ^ prec \<le> 2 ^ 8" using assms by (intro power_increasing) simp_all
  finally have "unat (getIndex32 e prec) < 256" by simp
  then show ?thesis
    by (simp add: reg_idx_def unsigned_ucast_eq take_bit_eq_mod)
qed

lemma loop_Cons:
  "addToRegisters_loop prec (e # es) regs =
     (if \<not> reg_idx prec e < length regs then (Some Out_of_bounds, regs)
      else addToRegisters_loop prec es
             (if reg_rank prec e > regs ! reg_idx prec e
              then regs[reg_idx prec e := reg_rank prec e] else regs))"
  by (simp add: reg_idx_def reg_rank_def Let_def)

lemma loop_ok:
  assumes "4 \<le> prec" "prec \<le> 18"
  shows "length regs = 2 ^ prec \<Longrightarrow>
     fst (addToRegisters_loop prec es regs) = None
     \<and> length (snd (addToRegisters_loop prec es regs)) = length regs"
proof (induction es arbitrary: regs)
  case Nil
  then show ?case by simp
next
  case (Cons e es)
  have "reg_idx prec e < length regs" using reg_idx_less [OF assms] Cons.prems by simp
  then show ?case using Cons by (simp add: loop_Cons del: addToRegisters_loop.simps)
qed

lemma loop_nth:
  assumes "4 \<le> prec" "prec \<le> 18"
  shows "length regs = 2 ^ prec \<Longrightarrow> i < length regs \<Longrightarrow>
     snd (addToRegisters_loop prec es regs) ! i = Max (insert (regs ! i) (ranks_at prec es i))"
proof (induction es arbitrary: regs)
  case Nil
  then show ?case by (simp add: ranks_at_def)
next
  case (Cons e es)
  let ?k = "reg_idx prec e" and ?r = "reg_rank prec e"
  let ?regs = "if ?r > regs ! ?k then regs[?k := ?r] else regs"
  have k: "?k < length regs" using reg_idx_less [OF assms] Cons.prems by simp
  have fin: "finite (ranks_at prec es i)" by (simp add: ranks_at_def)
  have step: "snd (addToRegisters_loop prec (e # es) regs) ! i
      = Max (insert (?regs ! i) (ranks_at prec es i))"
    using k Cons.IH [of ?regs] Cons.prems by (simp add: loop_Cons del: addToRegisters_loop.simps)
  show ?case
  proof (cases "?k = i")
    case True
    then have r: "ranks_at prec (e # es) i = insert ?r (ranks_at prec es i)"
      by (auto simp add: ranks_at_def)
    have "?regs ! i = max (regs ! i) ?r" using True k by (auto simp add: max_def)
    then show ?thesis unfolding step r by (simp only: Max_insert_max [OF fin])
  next
    case False
    then have "ranks_at prec (e # es) i = ranks_at prec es i"
      by (auto simp add: ranks_at_def)
    moreover have "?regs ! i = regs ! i" using False by simp
    ultimately show ?thesis using step by simp
  qed
qed

lemma loop_mono:
  assumes "4 \<le> prec" "prec \<le> 18" "length regs = 2 ^ prec" "i < length regs"
  shows "regs ! i \<le> snd (addToRegisters_loop prec es regs) ! i"
  unfolding loop_nth [OF assms] by (rule Max_ge) (simp_all add: ranks_at_def)

lemma merge_registers_ok:
  "i + length rest = length regs \<Longrightarrow>
     fst (merge_registers i rest regs) = None
     \<and> length (snd (merge_registers i rest regs)) = length regs
     \<and> (\<forall>j<length regs. snd (merge_registers i rest regs) ! j
            = (if j < i then regs ! j else max (regs ! j) (rest ! (j - i))))"
proof (induction rest arbitrary: i regs)
  case Nil
  then show ?case by simp
next
  case (Cons r rest)
  let ?regs = "if r > regs ! i then regs[i := r] else regs"
  have i: "i < length regs" using Cons.prems by simp
  have len: "Suc i + length rest = length ?regs" using Cons.prems by simp
  note IH = Cons.IH [OF len]
  have step: "merge_registers i (r # rest) regs = merge_registers (Suc i) rest ?regs"
    using i by simp
  show ?case unfolding step
  proof (intro conjI allI impI)
    show "fst (merge_registers (Suc i) rest ?regs) = None" using IH by simp
    show "length (snd (merge_registers (Suc i) rest ?regs)) = length regs" using IH by simp
    fix j assume j: "j < length regs"
    then have "snd (merge_registers (Suc i) rest ?regs) ! j
        = (if j < Suc i then ?regs ! j else max (?regs ! j) (rest ! (j - Suc i)))"
      using IH by simp
    also have "\<dots> = (if j < i then regs ! j else max (regs ! j) ((r # rest) ! (j - i)))"
      using i j by (cases "j = i") (auto simp add: max_def nth_Cons')
    finally show "snd (merge_registers (Suc i) rest ?regs) ! j
        = (if j < i then regs ! j else max (regs ! j) ((r # rest) ! (j - i)))" .
  qed
qed

lemma addToRegisters_eq:
  assumes "4 \<le> p s" "p s \<le> 18" "length (M s) = 2 ^ p s"
  shows "addToRegisters s es = (None, s\<lparr>M := snd (addToRegisters_loop (p s) es (M s))\<rparr>)"
proof (cases es)
  case Nil
  then show ?thesis by (simp add: addToRegisters_def)
next
  case (Cons e es')
  then have ne: "length es \<noteq> 0" by simp
  obtain err regs where r: "addToRegisters_loop (p s) es (M s) = (err, regs)"
    by (cases "addToRegisters_loop (p s) es (M s)")
  from loop_ok [OF assms(1,2), of "M s" es] assms(3) r have "err = None" by simp
  with r ne show ?thesis by (simp add: addToRegisters_def)
qed

lemma switch_eq:
  assumes "4 \<le> p s" "p s \<le> 18" "m s = 2 ^ p s"
  shows "switchToNormalRepresentation s =
     (None, s\<lparr>sparse := False,
               M := snd (addToRegisters_loop (p s) (sparseList s) (replicate (m s) 0)),
               sparseList := []\<rparr>)"
proof (cases "sparseList s")
  case Nil
  then show ?thesis by (simp add: switchToNormalRepresentation_def)
next
  case (Cons e es)
  let ?s1 = "s\<lparr>sparse := False, M := replicate (m s) 0\<rparr>"
  have "addToRegisters ?s1 (sparseList s)
      = (None, ?s1\<lparr>M := snd (addToRegisters_loop (p ?s1) (sparseList s) (M ?s1))\<rparr>)"
    by (rule addToRegisters_eq) (use assms in simp_all)
  then show ?thesis
    by (simp add: switchToNormalRepresentation_def Cons Let_def)
qed

text \<open>
  C9: for every precision from 4 to 18 and every encoded entry, the register index
  \<^verbatim>\<open>addToRegisters\<close> computes is below the length \<open>m = 2^p\<close> of the dense array, so
  the in-bounds assertion holds and no register access of the loop is out of range.
\<close>

theorem addToRegisters_in_bounds:
  assumes "wf_sketch s" "\<not> sparse s"
  shows "length (M s) = 2 ^ p s
       \<and> unat (ucast (getIndex32 e (p s)) :: uint8) < length (M s)
       \<and> fst (addToRegisters s es) = None
       \<and> length (M (snd (addToRegisters s es))) = length (M s)"
proof -
  from assms have a: "4 \<le> p s" "p s \<le> 18" "length (M s) = 2 ^ p s"
    by (simp_all add: wf_sketch_def)
  have "reg_idx (p s) e < 2 ^ p s" by (rule reg_idx_less [OF a(1,2)])
  moreover note addToRegisters_eq [OF a, of es] loop_ok [OF a(1,2), of "M s" es]
  ultimately show ?thesis using a by (simp add: reg_idx_def)
qed

theorem addToRegisters_in_bounds_witness:
  "wf_sketch \<lparr>p = 4, m = 16, M = replicate 16 0, sparse = False, sparseList = [], bit_mixer = id\<rparr>
   \<and> unat (ucast (getIndex32 0xF0000080 4) :: uint8) < 16
   \<and> fst (addToRegisters
        \<lparr>p = 4, m = 16, M = replicate 16 0, sparse = False, sparseList = [], bit_mixer = id\<rparr>
        [0x10000080, 0xF0000080]) = None"
  using addToRegisters_in_bounds
    [of "\<lparr>p = 4, m = 16, M = replicate 16 0, sparse = False, sparseList = [], bit_mixer = id\<rparr>"
        "0xF0000080" "[0x10000080, 0xF0000080]"]
  by (simp add: wf_sketch_def)

section \<open>Dense sketches only grow\<close>

lemma add_other_dense_sparse:
  assumes "wf_sketch s" "\<not> sparse s" "sparse other" "p other = p s"
  shows "add_other s other =
     (None, s\<lparr>M := snd (addToRegisters_loop (p s) (sparseList other) (M s))\<rparr>)"
proof -
  from assms have a: "4 \<le> p s" "p s \<le> 18" "length (M s) = 2 ^ p s"
    by (simp_all add: wf_sketch_def)
  have "add_other s other = addToRegisters s (sparseList other)"
    by (simp add: add_other_def assms(2,3,4))
  then show ?thesis by (simp only: addToRegisters_eq [OF a])
qed

lemma add_other_dense_dense:
  assumes "wf_sketch s" "\<not> sparse s" "wf_sketch other" "\<not> sparse other" "p other = p s"
  shows "add_other s other = (None, s\<lparr>M := snd (merge_registers 0 (M other) (M s))\<rparr>)"
proof -
  from assms have "0 + length (M other) = length (M s)" by (simp add: wf_sketch_def)
  from merge_registers_ok [OF this] have "fst (merge_registers 0 (M other) (M s)) = None"
    by simp
  then obtain regs where r: "merge_registers 0 (M other) (M s) = (None, regs)"
    by (cases "merge_registers 0 (M other) (M s)") simp
  have "add_other s other =
      (case merge_registers 0 (M other) (M s) of (e, regs) \<Rightarrow> (e, s\<lparr>M := regs\<rparr>))"
    by (simp add: add_other_def assms(2,4,5))
  then show ?thesis by (simp add: r)
qed

lemma add_dense_eq:
  assumes "wf_sketch s" "\<not> sparse s"
  shows "add s item =
     (None, s\<lparr>M := (let k = unat (getIndex64 (bit_mixer s item) (p s));
                         r = getRank64 (bit_mixer s item) (p s)
                     in if r > M s ! k then (M s)[k := r] else M s)\<rparr>)"
proof -
  from assms have a: "p s \<le> 32" "length (M s) = 2 ^ p s"
    by (simp_all add: wf_sketch_def)
  have "unat (getIndex64 (bit_mixer s item) (p s)) < length (M s)"
    using getIndex64_less [OF a(1)] a(2) by simp
  then show ?thesis using assms by (simp add: add_def Let_def)
qed

lemma mono_add:
  assumes "wf_sketch s" "\<not> sparse s" "i < length (M s)"
  shows "\<exists>s'. add s item = (None, s') \<and> \<not> sparse s'
            \<and> length (M s') = length (M s) \<and> M s ! i \<le> M s' ! i"
proof -
  from assms have a: "p s \<le> 32" "length (M s) = 2 ^ p s"
    by (simp_all add: wf_sketch_def)
  let ?k = "unat (getIndex64 (bit_mixer s item) (p s))"
  let ?r = "getRank64 (bit_mixer s item) (p s)"
  let ?regs = "if ?r > M s ! ?k then (M s)[?k := ?r] else M s"
  have k: "?k < length (M s)"
    using getIndex64_less [OF a(1)] a(2) by simp
  have "M s ! i \<le> ?regs ! i"
    using k by (cases "?k = i") auto
  moreover have "length ?regs = length (M s)" by simp
  moreover have "add s item = (None, s\<lparr>M := ?regs\<rparr>)"
    using add_dense_eq [OF assms(1,2), of item] by (simp only: Let_def)
  ultimately show ?thesis using assms(2) by simp
qed

lemma mono_drain:
  assumes "wf_sketch s" "\<not> sparse s" "i < length (M s)"
  shows "\<exists>s'. addToRegisters s es = (None, s') \<and> \<not> sparse s'
            \<and> length (M s') = length (M s) \<and> M s ! i \<le> M s' ! i"
proof -
  from assms have a: "4 \<le> p s" "p s \<le> 18" "length (M s) = 2 ^ p s"
    by (simp_all add: wf_sketch_def)
  have "length (snd (addToRegisters_loop (p s) es (M s))) = length (M s)"
    using loop_ok [OF a(1,2), of "M s" es] a(3) by simp
  moreover have "M s ! i \<le> snd (addToRegisters_loop (p s) es (M s)) ! i"
    using loop_mono [OF a(1,2), of "M s" i es] a(3) assms(3) by simp
  ultimately show ?thesis
    using assms(2) by (simp add: addToRegisters_eq [OF a])
qed

lemma mono_merge:
  assumes "wf_sketch s" "\<not> sparse s" "wf_sketch other" "p other = p s" "i < length (M s)"
  shows "\<exists>s'. add_other s other = (None, s') \<and> \<not> sparse s'
            \<and> length (M s') = length (M s) \<and> M s ! i \<le> M s' ! i"
proof (cases "sparse other")
  case True
  from assms have a: "4 \<le> p s" "p s \<le> 18" "length (M s) = 2 ^ p s"
    by (simp_all add: wf_sketch_def)
  have "length (snd (addToRegisters_loop (p s) (sparseList other) (M s))) = length (M s)"
    using loop_ok [OF a(1,2), of "M s" "sparseList other"] a(3) by simp
  moreover have "M s ! i \<le> snd (addToRegisters_loop (p s) (sparseList other) (M s)) ! i"
    using loop_mono [OF a(1,2), of "M s" i "sparseList other"] a(3) assms(5) by simp
  ultimately show ?thesis
    using assms(2) by (simp add: add_other_dense_sparse [OF assms(1,2) True assms(4)])
next
  case False
  with assms have "0 + length (M other) = length (M s)" by (simp add: wf_sketch_def)
  from merge_registers_ok [OF this] assms(5)
  have "length (snd (merge_registers 0 (M other) (M s))) = length (M s)
      \<and> M s ! i \<le> snd (merge_registers 0 (M other) (M s)) ! i"
    by simp
  then show ?thesis
    using assms(2) by (simp add: add_other_dense_dense [OF assms(1,2,3) False assms(4)])
qed

text \<open>
  C10: on a dense sketch, \<open>add\<close> of an item, the merge of any well-formed sketch of the
  same precision and the draining of a list return normally, leave the sketch dense and
  never decrease a register.
\<close>

theorem dense_registers_monotone:
  assumes "wf_sketch s" "\<not> sparse s" "wf_sketch other" "p other = p s" "i < length (M s)"
  shows "(\<exists>s'. add s item = (None, s') \<and> \<not> sparse s'
            \<and> length (M s') = length (M s) \<and> M s ! i \<le> M s' ! i)
       \<and> (\<exists>s'. add_other s other = (None, s') \<and> \<not> sparse s'
            \<and> length (M s') = length (M s) \<and> M s ! i \<le> M s' ! i)
       \<and> (\<exists>s'. addToRegisters s es = (None, s') \<and> \<not> sparse s'
            \<and> length (M s') = length (M s) \<and> M s ! i \<le> M s' ! i)"
  using mono_add [OF assms(1,2,5)] mono_merge [OF assms] mono_drain [OF assms(1,2,5)]
  by blast

text \<open>
  At precision 4, register 1 holds 30. The hash \<open>0x1800000000000000\<close> and the entry
  \<open>0x10000080\<close> both have index 1, with ranks 1 and 21: \<open>add\<close>, the merge of a sparse
  sketch holding the entry and the draining of the entry all reach register 1 with a
  lower rank and leave it at 30.
\<close>

theorem dense_registers_monotone_witness:
  "wf_sketch \<lparr>p = 4, m = 16, M = (replicate 16 0)[1 := 30], sparse = False, sparseList = [],
              bit_mixer = id\<rparr>
   \<and> wf_sketch \<lparr>p = 4, m = 16, M = [], sparse = True, sparseList = [0x10000080], bit_mixer = id\<rparr>
   \<and> (1::nat) < length ((replicate 16 (0::uint8))[1 := 30])
   \<and> getIndex64 0x1800000000000000 4 = 1 \<and> getRank64 0x1800000000000000 4 = 1
   \<and> getIndex32 0x10000080 4 = 1 \<and> getEncodedRank 0x10000080 pPrime 4 = 21
   \<and> (\<exists>s'. add \<lparr>p = 4, m = 16, M = (replicate 16 0)[1 := 30], sparse = False,
                  sparseList = [], bit_mixer = id\<rparr> 0x1800000000000000 = (None, s')
          \<and> \<not> sparse s' \<and> length (M s') = 16 \<and> 30 \<le> M s' ! 1)
   \<and> (\<exists>s'. add_other \<lparr>p = 4, m = 16, M = (replicate 16 0)[1 := 30], sparse = False,
                  sparseList = [], bit_mixer = id\<rparr>
               \<lparr>p = 4, m = 16, M = [], sparse = True, sparseList = [0x10000080],
                  bit_mixer = id\<rparr> = (None, s')
          \<and> \<not> sparse s' \<and> length (M s') = 16 \<and> 30 \<le> M s' ! 1)
   \<and> (\<exists>s'. addToRegisters \<lparr>p = 4, m = 16, M = (replicate 16 0)[1 := 30], sparse = False,
                  sparseList = [], bit_mixer = id\<rparr> [0x10000080] = (None, s')
          \<and> \<not> sparse s' \<and> length (M s') = 16 \<and> 30 \<le> M s' ! 1)
   \<and> add \<lparr>p = 4, m = 16, M = (replicate 16 0)[1 := 30], sparse = False, sparseList = [],
           bit_mixer = id\<rparr> 0x1800000000000000
       = (None, \<lparr>p = 4, m = 16, M = (replicate 16 0)[1 := 30], sparse = False, sparseList = [],
                 bit_mixer = id\<rparr>)
   \<and> addToRegisters \<lparr>p = 4, m = 16, M = (replicate 16 0)[1 := 30], sparse = False,
           sparseList = [], bit_mixer = id\<rparr> [0x10000080]
       = (None, \<lparr>p = 4, m = 16, M = (replicate 16 0)[1 := 30], sparse = False, sparseList = [],
                 bit_mixer = id\<rparr>)"
proof -
  have i64: "getIndex64 0x1800000000000000 4 = 1" by (simp add: getIndex64_def)
  have r64: "getRank64 0x1800000000000000 4 = 1"
    by (simp add: getRank64_def clz64_def builtin_clzl_def trailingOnes_def
        leading_zeros_numeral)
  have i32: "getIndex32 0x10000080 4 = 1" by (simp add: getIndex32_def)
  have r32: "getEncodedRank 0x10000080 pPrime 4 = 21"
    by (simp add: getEncodedRank_def getRank32_def clz32_def builtin_clz_def trailingOnes_def
        leading_zeros_numeral)
  have ad: "add \<lparr>p = 4, m = 16, M = (replicate 16 0)[1 := 30], sparse = False, sparseList = [],
           bit_mixer = id\<rparr> 0x1800000000000000
       = (None, \<lparr>p = 4, m = 16, M = (replicate 16 0)[1 := 30], sparse = False, sparseList = [],
                 bit_mixer = id\<rparr>)"
    by (simp add: add_def i64 r64 Let_def)
  have dr: "addToRegisters \<lparr>p = 4, m = 16, M = (replicate 16 0)[1 := 30], sparse = False,
           sparseList = [], bit_mixer = id\<rparr> [0x10000080]
       = (None, \<lparr>p = 4, m = 16, M = (replicate 16 0)[1 := 30], sparse = False, sparseList = [],
                 bit_mixer = id\<rparr>)"
    by (simp add: addToRegisters_def i32 r32 Let_def)
  have main: "wf_sketch \<lparr>p = 4, m = 16, M = (replicate 16 0)[1 := 30], sparse = False,
              sparseList = [], bit_mixer = id\<rparr>
   \<and> wf_sketch \<lparr>p = 4, m = 16, M = [], sparse = True, sparseList = [0x10000080], bit_mixer = id\<rparr>
   \<and> (1::nat) < length ((replicate 16 (0::uint8))[1 := 30])
   \<and> (\<exists>s'. add \<lparr>p = 4, m = 16, M = (replicate 16 0)[1 := 30], sparse = False,
                  sparseList = [], bit_mixer = id\<rparr> 0x1800000000000000 = (None, s')
          \<and> \<not> sparse s' \<and> length (M s') = 16 \<and> 30 \<le> M s' ! 1)
   \<and> (\<exists>s'. add_other \<lparr>p = 4, m = 16, M = (replicate 16 0)[1 := 30], sparse = False,
                  sparseList = [], bit_mixer = id\<rparr>
               \<lparr>p = 4, m = 16, M = [], sparse = True, sparseList = [0x10000080],
                  bit_mixer = id\<rparr> = (None, s')
          \<and> \<not> sparse s' \<and> length (M s') = 16 \<and> 30 \<le> M s' ! 1)
   \<and> (\<exists>s'. addToRegisters \<lparr>p = 4, m = 16, M = (replicate 16 0)[1 := 30], sparse = False,
                  sparseList = [], bit_mixer = id\<rparr> [0x10000080] = (None, s')
          \<and> \<not> sparse s' \<and> length (M s') = 16 \<and> 30 \<le> M s' ! 1)"
    using dense_registers_monotone
      [of "\<lparr>p = 4, m = 16, M = (replicate 16 0)[1 := 30], sparse = False, sparseList = [],
             bit_mixer = id\<rparr>"
          "\<lparr>p = 4, m = 16, M = [], sparse = True, sparseList = [0x10000080], bit_mixer = id\<rparr>"
          1 "0x1800000000000000" "[0x10000080]"]
    by (simp add: wf_sketch_def encoded_ok_def)
  from main i64 r64 i32 r32 ad dr show ?thesis by (intro conjI) simp_all
qed

section \<open>Evaluating the code on numerals\<close>

text \<open>
  C1 (the code at a failing input): at precision 9 the hash \<open>0x8040000000000000\<close> has
  index 256 and rank 1, and so has its encoding \<open>0x80400000\<close>. Draining the sparse list
  that holds it writes rank 1 to register 0, not to register 256: the index is held in
  a \<^verbatim>\<open>uint8_t\<close>. \<open>add\<close> on a dense sketch writes the same hash to register 256.
\<close>

theorem drain_truncates_index:
  "encodeHashIn32Bit 0x8040000000000000 9 pPrime = 0x80400000
   \<and> getIndex64 0x8040000000000000 9 = 256
   \<and> getIndex32 0x80400000 9 = 256
   \<and> getEncodedRank 0x80400000 pPrime 9 = 1
   \<and> switchToNormalRepresentation
        \<lparr>p = 9, m = 512, M = [], sparse = True, sparseList = [0x80400000], bit_mixer = id\<rparr>
       = (None, \<lparr>p = 9, m = 512, M = (replicate 512 0)[0 := 1], sparse = False,
                 sparseList = [], bit_mixer = id\<rparr>)
   \<and> add \<lparr>p = 9, m = 512, M = replicate 512 0, sparse = False, sparseList = [],
           bit_mixer = id\<rparr> 0x8040000000000000
       = (None, \<lparr>p = 9, m = 512, M = (replicate 512 0)[256 := 1], sparse = False,
                 sparseList = [], bit_mixer = id\<rparr>)"
proof -
  have enc: "encodeHashIn32Bit 0x8040000000000000 9 pPrime = 0x80400000"
    by (simp add: encodeHashIn32Bit_def pPrime_def extractHighBits64_def Let_def)
  have i64: "getIndex64 0x8040000000000000 9 = 256"
    by (simp add: getIndex64_def)
  have i32: "getIndex32 0x80400000 9 = 256"
    by (simp add: getIndex32_def)
  have rk: "getEncodedRank 0x80400000 pPrime 9 = 1"
    by (simp add: getEncodedRank_def getRank32_def clz32_def builtin_clz_def trailingOnes_def
        leading_zeros_numeral)
  have rk64: "getRank64 0x8040000000000000 9 = 1"
    by (simp add: getRank64_def clz64_def builtin_clzl_def trailingOnes_def
        leading_zeros_numeral)
  have sw: "switchToNormalRepresentation
        \<lparr>p = 9, m = 512, M = [], sparse = True, sparseList = [0x80400000], bit_mixer = id\<rparr>
       = (None, \<lparr>p = 9, m = 512, M = (replicate 512 0)[0 := 1], sparse = False,
                 sparseList = [], bit_mixer = id\<rparr>)"
    by (simp add: switchToNormalRepresentation_def addToRegisters_def i32 rk Let_def)
  have ad: "add \<lparr>p = 9, m = 512, M = replicate 512 0, sparse = False, sparseList = [],
           bit_mixer = id\<rparr> 0x8040000000000000
       = (None, \<lparr>p = 9, m = 512, M = (replicate 512 0)[256 := 1], sparse = False,
                 sparseList = [], bit_mixer = id\<rparr>)"
    by (simp add: add_def i64 rk64 Let_def)
  from enc i64 i32 rk sw ad show ?thesis by (intro conjI)
qed

text \<open>
  C2 (the code at a failing input): at precision 4 the hashes \<open>2^38\<close> and \<open>2^37\<close> are
  encoded as 3 and 5, two flagged words of the same 25-bit index. Inserting 5 into the
  list \<open>[3]\<close> appends it, and the list then holds two entries of one index; inserting
  them in the other order keeps 5 alone.
\<close>

theorem insertion_keeps_two_entries_of_one_index:
  "encodeHashIn32Bit 0x0000004000000000 4 pPrime = 3
   \<and> encodeHashIn32Bit 0x0000002000000000 4 pPrime = 5
   \<and> extractHighBits32 3 pPrime = extractHighBits32 5 pPrime
   \<and> addHashToSparseList [3] 5 pPrime = [3, 5]
   \<and> add \<lparr>p = 4, m = 16, M = [], sparse = True, sparseList = [3], bit_mixer = id\<rparr>
         0x0000002000000000
       = (None, \<lparr>p = 4, m = 16, M = [], sparse = True, sparseList = [3, 5], bit_mixer = id\<rparr>)
   \<and> addHashToSparseList [5] 3 pPrime = [5]"
proof -
  have e1: "encodeHashIn32Bit 0x0000004000000000 4 pPrime = 3"
    by (simp add: encodeHashIn32Bit_def pPrime_def extractHighBits64_def Let_def
        getRank64_def clz64_def builtin_clzl_def trailingOnes_def leading_zeros_numeral)
  have e2: "encodeHashIn32Bit 0x0000002000000000 4 pPrime = 5"
    by (simp add: encodeHashIn32Bit_def pPrime_def extractHighBits64_def Let_def
        getRank64_def clz64_def builtin_clzl_def trailingOnes_def leading_zeros_numeral)
  have x: "extractHighBits32 3 pPrime = extractHighBits32 5 pPrime"
    by (simp add: extractHighBits32_def pPrime_def)
  have ins: "addHashToSparseList [3] 5 pPrime = [3, 5]"
    by (simp add: addHashToSparseList_def lower_bound_def Let_def)
  have ins': "addHashToSparseList [5] 3 pPrime = [5]"
    by (simp add: addHashToSparseList_def lower_bound_def extractHighBits32_def pPrime_def Let_def)
  have ad: "add \<lparr>p = 4, m = 16, M = [], sparse = True, sparseList = [3], bit_mixer = id\<rparr>
         0x0000002000000000
       = (None, \<lparr>p = 4, m = 16, M = [], sparse = True, sparseList = [3, 5], bit_mixer = id\<rparr>)"
    by (simp add: add_def e2 ins Let_def)
  from e1 e2 x ins ad ins' show ?thesis by (intro conjI)
qed

section \<open>The representation switch\<close>

lemma add_sparse_eq:
  assumes "wf_sketch s" "sparse s"
  shows "add s item =
     (let xs = addHashToSparseList (sparseList s)
                 (encodeHashIn32Bit (bit_mixer s item) (p s) pPrime) pPrime
      in if length xs > m s div 4
         then (None, s\<lparr>sparse := False,
                        M := snd (addToRegisters_loop (p s) xs (replicate (m s) 0)),
                        sparseList := []\<rparr>)
         else (None, s\<lparr>sparseList := xs\<rparr>))"
proof -
  let ?xs = "addHashToSparseList (sparseList s)
                 (encodeHashIn32Bit (bit_mixer s item) (p s) pPrime) pPrime"
  from assms have a: "4 \<le> p s" "p s \<le> 18" "m s = 2 ^ p s"
    by (simp_all add: wf_sketch_def)
  have "switchToNormalRepresentation (s\<lparr>sparseList := ?xs\<rparr>) =
      (None, s\<lparr>sparse := False,
        M := snd (addToRegisters_loop (p s) ?xs (replicate (m s) 0)), sparseList := []\<rparr>)"
    using switch_eq [of "s\<lparr>sparseList := ?xs\<rparr>"] a by simp
  then show ?thesis using assms(2) by (simp add: add_def Let_def)
qed

lemma add_other_sparse_small:
  assumes "sparse s" "sparse other" "p other = p s"
    "length (sparseList s) + length (sparseList other) \<le> m s"
  shows "add_other s other =
     (None, s\<lparr>sparseList := fold (\<lambda>val vec. addHashToSparseList vec val pPrime)
                                 (sparseList other) (sparseList s)\<rparr>)"
  using assms by (simp add: add_other_def)

lemma add_other_sparse_big:
  assumes "wf_sketch s" "sparse s" "sparse other" "p other = p s"
    "length (sparseList s) + length (sparseList other) > m s"
  shows "add_other s other =
     (None, s\<lparr>sparse := False,
               M := snd (addToRegisters_loop (p s) (sparseList other)
                      (snd (addToRegisters_loop (p s) (sparseList s) (replicate (m s) 0)))),
               sparseList := []\<rparr>)"
proof -
  from assms have a: "4 \<le> p s" "p s \<le> 18" "m s = 2 ^ p s"
    by (simp_all add: wf_sketch_def)
  let ?regs = "snd (addToRegisters_loop (p s) (sparseList s) (replicate (m s) 0))"
  let ?s1 = "s\<lparr>sparse := False, M := ?regs, sparseList := []\<rparr>"
  have len: "length ?regs = 2 ^ p s"
    using loop_ok [OF a(1,2), of "replicate (m s) 0" "sparseList s"] a(3) by simp
  have sw: "switchToNormalRepresentation s = (None, ?s1)" by (rule switch_eq [OF a])
  have "addToRegisters ?s1 (sparseList other)
      = (None, ?s1\<lparr>M := snd (addToRegisters_loop (p ?s1) (sparseList other) (M ?s1))\<rparr>)"
    by (rule addToRegisters_eq) (use a len in simp_all)
  moreover have "add_other s other = addToRegisters ?s1 (sparseList other)"
    using assms(2-5) by (simp add: add_other_def sw)
  ultimately show ?thesis by simp
qed

lemma add_other_sparse_dense:
  assumes "wf_sketch s" "sparse s" "wf_sketch other" "\<not> sparse other" "p other = p s"
  shows "add_other s other =
     (None, s\<lparr>sparse := False,
               M := snd (merge_registers 0 (M other)
                      (snd (addToRegisters_loop (p s) (sparseList s) (replicate (m s) 0)))),
               sparseList := []\<rparr>)"
proof -
  from assms have a: "4 \<le> p s" "p s \<le> 18" "m s = 2 ^ p s"
    by (simp_all add: wf_sketch_def)
  let ?regs = "snd (addToRegisters_loop (p s) (sparseList s) (replicate (m s) 0))"
  let ?s1 = "s\<lparr>sparse := False, M := ?regs, sparseList := []\<rparr>"
  have len: "length ?regs = 2 ^ p s"
    using loop_ok [OF a(1,2), of "replicate (m s) 0" "sparseList s"] a(3) by simp
  have sw: "switchToNormalRepresentation s = (None, ?s1)" by (rule switch_eq [OF a])
  from assms len have "0 + length (M other) = length ?regs" by (simp add: wf_sketch_def)
  from merge_registers_ok [OF this] have "fst (merge_registers 0 (M other) ?regs) = None"
    by simp
  then obtain regs where r: "merge_registers 0 (M other) ?regs = (None, regs)"
    by (cases "merge_registers 0 (M other) ?regs") simp
  have "add_other s other =
      (case merge_registers 0 (M other) ?regs of (e, regs) \<Rightarrow> (e, ?s1\<lparr>M := regs\<rparr>))"
    using assms(2,4,5) by (simp add: add_other_def sw)
  then show ?thesis by (simp add: r)
qed

text \<open>
  C4 (as the code has it): \<open>add\<close> of an item to a sparse sketch leaves it sparse exactly
  when the list, after the insertion, has at most \<open>m / 4\<close> entries, and converts it to
  the dense representation otherwise. A merge into a sparse sketch does not use that
  bound: the sketch stays sparse exactly when the other sketch is sparse and the two
  lists together have at most \<open>m\<close> entries.
\<close>

theorem representation_switch:
  assumes "wf_sketch s" "sparse s" "wf_sketch other" "p other = p s"
  shows "(\<exists>s'. add s item = (None, s')
            \<and> sparse s' = (length (addHashToSparseList (sparseList s)
                  (encodeHashIn32Bit (bit_mixer s item) (p s) pPrime) pPrime) \<le> m s div 4)
            \<and> (if sparse s'
               then sparseList s' = addHashToSparseList (sparseList s)
                  (encodeHashIn32Bit (bit_mixer s item) (p s) pPrime) pPrime
               else length (M s') = m s))
       \<and> (\<exists>s'. add_other s other = (None, s')
            \<and> sparse s' = (sparse other
                  \<and> length (sparseList s) + length (sparseList other) \<le> m s))"
proof
  from assms have a: "4 \<le> p s" "p s \<le> 18" "m s = 2 ^ p s"
    by (simp_all add: wf_sketch_def)
  have len: "length (snd (addToRegisters_loop (p s) xs (replicate (m s) 0))) = m s" for xs
    using loop_ok [OF a(1,2), of "replicate (m s) 0" xs] a(3) by simp
  show "\<exists>s'. add s item = (None, s')
            \<and> sparse s' = (length (addHashToSparseList (sparseList s)
                  (encodeHashIn32Bit (bit_mixer s item) (p s) pPrime) pPrime) \<le> m s div 4)
            \<and> (if sparse s'
               then sparseList s' = addHashToSparseList (sparseList s)
                  (encodeHashIn32Bit (bit_mixer s item) (p s) pPrime) pPrime
               else length (M s') = m s)"
    unfolding add_sparse_eq [OF assms(1,2)] using assms(2) len
    by (simp add: Let_def not_less)
  show "\<exists>s'. add_other s other = (None, s')
            \<and> sparse s' = (sparse other
                  \<and> length (sparseList s) + length (sparseList other) \<le> m s)"
  proof (cases "sparse other")
    case False
    then show ?thesis
      by (simp add: add_other_sparse_dense [OF assms(1,2,3) False assms(4)])
  next
    case True
    show ?thesis
    proof (cases "length (sparseList s) + length (sparseList other) \<le> m s")
      case True
      with \<open>sparse other\<close> assms(2) show ?thesis
        by (simp add: add_other_sparse_small [OF assms(2) \<open>sparse other\<close> assms(4) True])
    next
      case False
      then have "length (sparseList s) + length (sparseList other) > m s" by simp
      from add_other_sparse_big [OF assms(1,2) \<open>sparse other\<close> assms(4) this] False
      show ?thesis by simp
    qed
  qed
qed

theorem representation_switch_witness:
  "wf_sketch \<lparr>p = 4, m = 16, M = [], sparse = True,
       sparseList = [0x00000080, 0x10000080, 0x20000080, 0x30000080], bit_mixer = id\<rparr>
   \<and> wf_sketch \<lparr>p = 4, m = 16, M = [], sparse = True,
       sparseList = [0x40000080, 0x50000080, 0x60000080, 0x70000080], bit_mixer = id\<rparr>
   \<and> (\<exists>s'. add \<lparr>p = 4, m = 16, M = [], sparse = True,
           sparseList = [0x00000080, 0x10000080, 0x20000080, 0x30000080], bit_mixer = id\<rparr>
          0x4000008000000000 = (None, s')
        \<and> sparse s' = (length [0x00000080, 0x10000080, 0x20000080, 0x30000080, 0x40000080 :: uint32]
                         \<le> 16 div 4)
        \<and> (if sparse s'
            then sparseList s' = [0x00000080, 0x10000080, 0x20000080, 0x30000080, 0x40000080]
            else length (M s') = 16))
   \<and> (\<exists>s'. add_other
        \<lparr>p = 4, m = 16, M = [], sparse = True,
           sparseList = [0x00000080, 0x10000080, 0x20000080, 0x30000080], bit_mixer = id\<rparr>
        \<lparr>p = 4, m = 16, M = [], sparse = True,
           sparseList = [0x40000080, 0x50000080, 0x60000080, 0x70000080], bit_mixer = id\<rparr>
       = (None, s') \<and> sparse s' = (True \<and> (4::nat) + 4 \<le> 16))"
proof -
  have e: "encodeHashIn32Bit 0x4000008000000000 4 pPrime = 0x40000080"
    by (simp add: encodeHashIn32Bit_def pPrime_def extractHighBits64_def Let_def)
  have i: "addHashToSparseList [0x00000080, 0x10000080, 0x20000080, 0x30000080] 0x40000080 pPrime
      = [0x00000080, 0x10000080, 0x20000080, 0x30000080, 0x40000080]"
    by (simp add: addHashToSparseList_def lower_bound_def Let_def)
  show ?thesis
    using representation_switch
      [of "\<lparr>p = 4, m = 16, M = [], sparse = True,
             sparseList = [0x00000080, 0x10000080, 0x20000080, 0x30000080], bit_mixer = id\<rparr>"
          "\<lparr>p = 4, m = 16, M = [], sparse = True,
             sparseList = [0x40000080, 0x50000080, 0x60000080, 0x70000080], bit_mixer = id\<rparr>"
          "0x4000008000000000"]
    by (simp add: wf_sketch_def encoded_ok_def e i cong: if_cong)
qed

text \<open>
  C4 (counterexample): merging two sparse sketches of precision 4 with four entries each
  leaves a sparse sketch of eight entries, more than \<open>m / 4 = 4\<close>.
\<close>

theorem merge_stays_sparse_above_quarter:
  "wf_sketch \<lparr>p = 4, m = 16, M = [], sparse = True,
       sparseList = [0x00000080, 0x10000080, 0x20000080, 0x30000080], bit_mixer = id\<rparr>
   \<and> wf_sketch \<lparr>p = 4, m = 16, M = [], sparse = True,
       sparseList = [0x40000080, 0x50000080, 0x60000080, 0x70000080], bit_mixer = id\<rparr>
   \<and> add_other
        \<lparr>p = 4, m = 16, M = [], sparse = True,
           sparseList = [0x00000080, 0x10000080, 0x20000080, 0x30000080], bit_mixer = id\<rparr>
        \<lparr>p = 4, m = 16, M = [], sparse = True,
           sparseList = [0x40000080, 0x50000080, 0x60000080, 0x70000080], bit_mixer = id\<rparr>
       = (None, \<lparr>p = 4, m = 16, M = [], sparse = True,
           sparseList = [0x00000080, 0x10000080, 0x20000080, 0x30000080,
                         0x40000080, 0x50000080, 0x60000080, 0x70000080], bit_mixer = id\<rparr>)
   \<and> (16::nat) div 4 < 8"
  by (simp add: wf_sketch_def encoded_ok_def add_other_def addHashToSparseList_def
      lower_bound_def Let_def)

section \<open>Contract errors\<close>

text \<open>
  C8: merging sketches of unequal precision throws \<^verbatim>\<open>std::invalid_argument\<close> and leaves
  the sketch as it was; \<open>linearCounting m v\<close> throws exactly when \<open>v > m\<close> and
  returns \<open>m * ln (m / v)\<close> otherwise, which for \<open>v = 0\<close> is the value the
  floating-point expression has there: \<open>+inf\<close>, and \<open>NaN\<close> when \<open>m = 0\<close> too.
\<close>

theorem contract_errors:
  assumes "p this \<noteq> p other"
  shows "add_other this other = (Some Invalid_argument, this)
       \<and> ((\<exists>e. linearCounting x v = Inl e) = (v > x))
       \<and> linearCounting x v =
           (if v > x then Inl Invalid_argument
            else if v = 0 then Inr (if x = 0 then Not_a_number else Plus_infinity)
            else Inr (Finite_double (real (unat x) * ln (real (unat x) / real (unat v)))))"
  using assms by (simp add: add_other_def linearCounting_def)

theorem contract_errors_witness:
  "p \<lparr>p = 4, m = 16, M = [], sparse = True, sparseList = [0x00000080], bit_mixer = id\<rparr>
     \<noteq> p \<lparr>p = 5, m = 32, M = replicate 32 0, sparse = False, sparseList = [], bit_mixer = id\<rparr>
   \<and> add_other
        \<lparr>p = 4, m = 16, M = [], sparse = True, sparseList = [0x00000080], bit_mixer = id\<rparr>
        \<lparr>p = 5, m = 32, M = replicate 32 0, sparse = False, sparseList = [], bit_mixer = id\<rparr>
       = (Some Invalid_argument,
          \<lparr>p = 4, m = 16, M = [], sparse = True, sparseList = [0x00000080], bit_mixer = id\<rparr>)
   \<and> linearCounting 16 17 = Inl Invalid_argument
   \<and> linearCounting 16 4 = Inr (Finite_double (16 * ln 4))
   \<and> linearCounting 16 16 = Inr (Finite_double 0)
   \<and> linearCounting 16 0 = Inr Plus_infinity
   \<and> linearCounting 0 0 = Inr Not_a_number"
  using contract_errors
      [of "\<lparr>p = 4, m = 16, M = [], sparse = True, sparseList = [0x00000080], bit_mixer = id\<rparr>"
          "\<lparr>p = 5, m = 32, M = replicate 32 0, sparse = False, sparseList = [], bit_mixer = id\<rparr>"
          16 17]
    contract_errors
      [of "\<lparr>p = 4, m = 16, M = [], sparse = True, sparseList = [0x00000080], bit_mixer = id\<rparr>"
          "\<lparr>p = 5, m = 32, M = replicate 32 0, sparse = False, sparseList = [], bit_mixer = id\<rparr>"
          16 4]
    contract_errors
      [of "\<lparr>p = 4, m = 16, M = [], sparse = True, sparseList = [0x00000080], bit_mixer = id\<rparr>"
          "\<lparr>p = 5, m = 32, M = replicate 32 0, sparse = False, sparseList = [], bit_mixer = id\<rparr>"
          16 16]
    contract_errors
      [of "\<lparr>p = 4, m = 16, M = [], sparse = True, sparseList = [0x00000080], bit_mixer = id\<rparr>"
          "\<lparr>p = 5, m = 32, M = replicate 32 0, sparse = False, sparseList = [], bit_mixer = id\<rparr>"
          16 0]
    contract_errors
      [of "\<lparr>p = 4, m = 16, M = [], sparse = True, sparseList = [0x00000080], bit_mixer = id\<rparr>"
          "\<lparr>p = 5, m = 32, M = replicate 32 0, sparse = False, sparseList = [], bit_mixer = id\<rparr>"
          0 0]
  by simp

section \<open>The cardinality of a sparse sketch\<close>

lemma lc7095_upper: "lc7095 < 7096"
proof -
  let ?c = "7096 / 33554432 :: real"
  have "(33554432 / 33547337 :: real) < 1 + ?c + ?c\<^sup>2 / 2"
    by (simp add: power2_eq_square)
  also have "\<dots> \<le> exp ?c" by (rule exp_lower_Taylor_quadratic) simp
  finally have "ln (33554432 / 33547337 :: real) < ln (exp ?c)"
    by (subst ln_less_cancel_iff) simp_all
  then have "ln (33554432 / 33547337 :: real) < ?c" by simp
  then show ?thesis by (simp add: lc7095_def)
qed

lemma lc7095_lower: "7095 + 1 / 2 \<le> lc7095"
proof -
  let ?y = "14191 / 536870912 :: real"
  have "1 - ?y \<le> exp (- ?y)" using exp_ge_add_one_self [of "- ?y"] by simp
  then have "(1 - ?y) ^ 8 \<le> exp (- ?y) ^ 8" by (intro power_mono) simp_all
  also have "\<dots> = exp (- (8 * ?y))"
    using exp_of_nat_mult [of 8 "- ?y"] by simp
  finally have "(1 - ?y) ^ 8 \<le> exp (- (8 * ?y))" .
  moreover have "(33547337 / 33554432 :: real) \<le> (1 - ?y) ^ 8"
    by (simp add: power_divide)
  ultimately have "(33547337 / 33554432 :: real) \<le> exp (- (8 * ?y))" by linarith
  then have "ln (33547337 / 33554432 :: real) \<le> ln (exp (- (8 * ?y)))"
    by (subst ln_le_cancel_iff) simp_all
  then have "ln (33547337 / 33554432 :: real) \<le> - (8 * ?y)" by (simp only: ln_exp)
  moreover have "ln (33554432 / 33547337 :: real) = - ln (33547337 / 33554432)"
    by (simp add: ln_div)
  ultimately have "8 * ?y \<le> ln (33554432 / 33547337 :: real)" by linarith
  then show ?thesis by (simp add: lc7095_def)
qed

lemma floor_lc: "\<lfloor>lc7095\<rfloor> = 7095"
  using lc7095_upper lc7095_lower by (intro floor_unique) simp_all

lemma round_lc: "round lc7095 = 7096"
  using lc7095_upper lc7095_lower by (intro round_unique) simp_all

lemma unat_example_entry:
  assumes "i < 32768"
  shows "unat (example_entry i) = i * 131072 + 128"
proof -
  have "i * 131072 + 128 < 2 ^ 32" using assms by simp
  then show ?thesis
    by (simp add: example_entry_def push_bit_eq_mult unat_word_ariths unat_of_nat
        mod_add_left_eq mod_mult_left_eq)
qed

lemma bit_128: "bit (128 :: int) k = (k = 7)" "bit (128 :: nat) k = (k = 7)"
proof -
  have "bit (2 ^ 7 :: int) k = (k = 7)" "bit (2 ^ 7 :: nat) k = (k = 7)"
    by (simp_all only: bit_exp_iff) auto
  then show "bit (128 :: int) k = (k = 7)" "bit (128 :: nat) k = (k = 7)" by simp_all
qed

lemma example_entry_or: "example_entry i = push_bit 17 (of_nat i) OR 128"
  unfolding example_entry_def
  by (rule disjunctive_add) (auto simp add: bit_simps bit_128)

lemma bit_example_entry:
  "bit (example_entry i) k = (k = 7 \<or> (17 \<le> k \<and> k < 32 \<and> bit i (k - 17)))"
  unfolding example_entry_or by (auto simp add: bit_simps bit_of_nat_iff bit_128)

lemma encoded_ok_example: "encoded_ok 15 (example_entry i)"
proof -
  have "bit (push_bit 15 (push_bit 7 (drop_bit 7 (example_entry i)))) 22"
    by (simp add: bit_simps bit_example_entry)
  then have "push_bit 15 (push_bit 7 (drop_bit 7 (example_entry i))) \<noteq> 0"
    by (auto simp add: bit_eq_iff intro: exI [of _ 22])
  moreover have "\<not> bit (example_entry i) 0" by (simp add: bit_example_entry)
  ultimately show ?thesis by (simp add: encoded_ok_def flag_iff_bit0)
qed

lemma sorted_example: "n \<le> 32768 \<Longrightarrow> sorted_wrt (<) (map example_entry [0..<n])"
proof -
  assume n: "n \<le> 32768"
  have "example_entry i < example_entry j" if "i < j" "j < n" for i j
    using that n by (simp add: word_less_nat_alt unat_example_entry)
  then show ?thesis
    by (simp add: sorted_wrt_map sorted_wrt_iff_nth_less)
qed

lemma wf_sparse7095: "wf_sketch sparse7095"
  by (simp add: wf_sketch_def sparse7095_def sorted_example list_all_iff encoded_ok_example)

lemma unat_mPrime_minus:
  assumes "n \<le> 33554432"
  shows "unat (mPrime - of_nat n) = 33554432 - n" "\<not> mPrime - of_nat n > mPrime"
proof -
  have "of_nat (33554432 - n) = (of_nat 33554432 - of_nat n :: uint32)"
    using assms by (rule of_nat_diff)
  then have e: "mPrime - of_nat n = of_nat (33554432 - n)" by (simp add: mPrime_def)
  show "unat (mPrime - of_nat n) = 33554432 - n"
    unfolding e by (simp add: unat_of_nat)
  then show "\<not> mPrime - of_nat n > mPrime"
    by (simp add: word_less_nat_alt mPrime_def)
qed

lemma mPrime_minus_nonzero:
  assumes "n < 33554432"
  shows "mPrime - of_nat n \<noteq> 0"
proof
  assume "mPrime - of_nat n = 0"
  then have "unat (mPrime - of_nat n) = 0" by simp
  with unat_mPrime_minus(1) [of n] assms show False by simp
qed

text \<open>
  C5 (as the code has it): for a sparse sketch, \<open>cardinality\<close> returns
  \<open>m_prime * ln (m_prime / (m_prime - |sparse_list|))\<close> with the fractional part
  discarded (the conversion \<^verbatim>\<open>uint64_t(double)\<close>), where \<open>m_prime = 2^25\<close>.
\<close>

theorem sparse_cardinality_truncates:
  assumes "sparse s" "length (sparseList s) < 33554432"
  shows "cardinality tbl s =
     Inr (word_of_int \<lfloor>33554432 * ln (33554432 / real (33554432 - length (sparseList s)))\<rfloor>)"
  using assms unat_mPrime_minus [of "length (sparseList s)"]
    mPrime_minus_nonzero [of "length (sparseList s)"]
  by (simp add: cardinality_def heuleCardinality_def linearCounting_def to_uint64_def
      double_to_uint64_def mPrime_def)

theorem sparse_cardinality_truncates_witness:
  "sparse sparse7095 \<and> length (sparseList sparse7095) < 33554432
   \<and> cardinality no_tables sparse7095 =
       Inr (word_of_int \<lfloor>33554432 * ln (33554432 / real (33554432 - length (sparseList sparse7095)))\<rfloor>)"
  using sparse_cardinality_truncates [of sparse7095 no_tables]
  by (simp add: sparse7095_def)

text \<open>
  C5 (counterexample): for the sparse sketch of 7095 entries the linear-counting value
  lies between 7095.5 and 7096; its nearest integer is 7096, and \<open>cardinality\<close>
  returns 7095.
\<close>

theorem sparse_cardinality_not_nearest:
  "wf_sketch sparse7095
   \<and> linearCounting mPrime (mPrime - of_nat (length (sparseList sparse7095)))
       = Inr (Finite_double lc7095)
   \<and> round lc7095 = 7096
   \<and> cardinality no_tables sparse7095 = Inr 7095"
proof -
  have len: "length (sparseList sparse7095) = 7095" by (simp add: sparse7095_def)
  have lc: "linearCounting mPrime (mPrime - of_nat (length (sparseList sparse7095)))
      = Inr (Finite_double lc7095)"
    using unat_mPrime_minus [of 7095] mPrime_minus_nonzero [of 7095]
    by (simp add: len linearCounting_def lc7095_def mPrime_def)
  have "cardinality no_tables sparse7095 = Inr (word_of_int \<lfloor>lc7095\<rfloor>)"
    using lc
    by (simp add: cardinality_def heuleCardinality_def to_uint64_def double_to_uint64_def
        sparse7095_def)
  then show ?thesis using wf_sparse7095 lc round_lc by (simp add: floor_lc)
qed

section \<open>Entries of one index in the sparse list\<close>

lemma same_prefix_bits:
  assumes "extractHighBits32 e1 pPrime = extractHighBits32 e2 pPrime"
  shows "drop_bit 7 e1 = drop_bit 7 e2" and "7 \<le> k \<Longrightarrow> bit e1 k = bit e2 k"
proof -
  show d: "drop_bit 7 e1 = drop_bit 7 e2"
    using assms by (simp add: extractHighBits32_def pPrime_def)
  assume "7 \<le> k"
  then have "bit e1 k = bit (drop_bit 7 e1) (k - 7)" "bit e2 k = bit (drop_bit 7 e2) (k - 7)"
    by (simp_all add: bit_drop_bit_eq)
  then show "bit e1 k = bit e2 k" by (simp add: d)
qed

lemma same_prefix_idx:
  assumes "extractHighBits32 e1 pPrime = extractHighBits32 e2 pPrime" "prec \<le> 25"
  shows "reg_idx prec e1 = reg_idx prec e2"
proof -
  have "getIndex32 e1 prec = getIndex32 e2 prec"
  proof (rule bit_word_eqI)
    fix n assume "n < LENGTH(32)"
    have "7 \<le> 32 - prec + n" using assms(2) by simp
    from same_prefix_bits(2) [OF assms(1) this]
    show "bit (getIndex32 e1 prec) n = bit (getIndex32 e2 prec) n"
      by (simp add: getIndex32_def bit_drop_bit_eq)
  qed
  then show ?thesis by (simp add: reg_idx_def)
qed

lemma same_prefix_flag:
  assumes "extractHighBits32 e1 pPrime = extractHighBits32 e2 pPrime"
    "encoded_ok prec e1" "encoded_ok prec e2"
  shows "(e1 AND 1 = 1) = (e2 AND 1 = 1)"
  using assms(2,3) same_prefix_bits(1) [OF assms(1)] by (simp add: encoded_ok_def)

lemma same_prefix_rank_unflagged:
  assumes sp: "extractHighBits32 e1 pPrime = extractHighBits32 e2 pPrime"
    and ok: "encoded_ok prec e1" and f: "e1 AND 1 \<noteq> 1" "e2 AND 1 \<noteq> 1"
    and pr: "prec \<le> 18"
  shows "reg_rank prec e1 = reg_rank prec e2"
proof -
  let ?x = "push_bit prec e1 OR mask prec :: uint32"
  let ?y = "push_bit prec e2 OR mask prec :: uint32"
  have same: "\<forall>i<25 - prec. bit ?x (32 - 1 - i) = bit ?y (32 - 1 - i)"
  proof (intro allI impI)
    fix i assume "i < 25 - prec"
    then have "7 \<le> 31 - i - prec" by simp
    from same_prefix_bits(2) [OF sp this] show "bit ?x (32 - 1 - i) = bit ?y (32 - 1 - i)"
      by (simp add: bit_simps)
  qed
  from ok f have "push_bit prec (push_bit 7 (drop_bit 7 e1)) \<noteq> 0"
    by (simp add: encoded_ok_def)
  then obtain k where k: "bit (push_bit prec (push_bit 7 (drop_bit 7 e1))) k"
    by (auto simp: bit_eq_iff)
  then have k': "prec + 7 \<le> k" "k < 32" "bit e1 (k - prec)"
    by (auto simp add: bit_simps)
  have "\<exists>i<25 - prec. bit ?x (32 - 1 - i)"
  proof (intro exI conjI)
    show "31 - k < 25 - prec" using k' pr by simp
    show "bit ?x (32 - 1 - (31 - k))" using k' by (simp add: bit_simps)
  qed
  with same have "leading_zeros 32 ?x = leading_zeros 32 ?y"
    by (intro leading_zeros_cong [of "25 - prec"]) simp_all
  with f show ?thesis
    by (simp add: reg_rank_def getEncodedRank_def getRank32_eq)
qed

lemma unat_extract_field:
  "unat (extractBits (e :: uint32) 7 1 False) = unat e div 2 mod 64"
proof -
  have "extractBits e 7 1 False = take_bit 6 (drop_bit 1 e)"
    by (rule bit_word_eqI) (auto simp add: bit_extractBits bit_simps)
  then have "unat (extractBits e 7 1 False) = take_bit 6 (drop_bit 1 (unat e))"
    by (simp only: unsigned_take_bit_eq unat_drop_bit_eq)
  then show ?thesis by (simp add: take_bit_eq_mod drop_bit_eq_div)
qed

lemma flagged_rank:
  assumes "e AND 1 = 1" "prec \<le> 25"
  shows "unat (reg_rank prec e) = 25 - prec + unat e div 2 mod 64"
proof -
  have a: "(of_nat pPrime - of_nat prec :: uint8) = of_nat (25 - prec)"
    using assms(2) by (simp add: pPrime_def of_nat_diff)
  have b: "ucast (of_nat (25 - prec) :: uint8) = (of_nat (25 - prec) :: uint32)"
    by (rule ucast_of_nat_up) simp
  have c: "extractBits e 7 1 False = of_nat (unat e div 2 mod 64)"
    using unat_extract_field [of e] by (metis of_nat_unat ucast_id)
  have "reg_rank prec e = ucast (of_nat (25 - prec) + of_nat (unat e div 2 mod 64) :: uint32)"
    using assms(1) by (simp only: reg_rank_def getEncodedRank_def a b c Let_def if_True simp_thms)
  also have "\<dots> = ucast (of_nat (25 - prec + unat e div 2 mod 64) :: uint32)" by simp
  also have "\<dots> = (of_nat (25 - prec + unat e div 2 mod 64) :: uint8)"
    by (rule ucast_of_nat_down)
  finally have r: "reg_rank prec e = of_nat (25 - prec + unat e div 2 mod 64)" .
  have "unat (reg_rank prec e) = (25 - prec + unat e div 2 mod 64) mod 2 ^ LENGTH(8)"
    unfolding r by (rule unat_of_nat)
  then have "unat (reg_rank prec e) = (25 - prec + unat e div 2 mod 64) mod 256"
    by simp
  moreover have "unat e div 2 mod 64 < 64" by simp
  then have "25 - prec + unat e div 2 mod 64 < 256" by linarith
  ultimately show ?thesis by simp
qed

lemma same_prefix_rank_flagged:
  assumes sp: "extractHighBits32 e1 pPrime = extractHighBits32 e2 pPrime"
    and f: "e1 AND 1 = 1" "e2 AND 1 = 1" and lt: "e1 < e2" and pr: "prec \<le> 25"
  shows "reg_rank prec e1 \<le> reg_rank prec e2"
proof -
  have "unat (drop_bit 7 e1) = unat (drop_bit 7 e2)"
    using same_prefix_bits(1) [OF sp] by simp
  then have "drop_bit 7 (unat e1) = drop_bit 7 (unat e2)"
    by (simp only: unat_drop_bit_eq)
  then have d: "unat e1 div 128 = unat e2 div 128"
    by (simp add: drop_bit_eq_div)
  from lt have l: "unat e1 < unat e2" by (simp add: word_less_nat_alt)
  have "unat e1 div 2 mod 64 \<le> unat e2 div 2 mod 64"
  proof -
    let ?a = "unat e1 div 2" and ?b = "unat e2 div 2"
    have "?a \<le> ?b" using l by (intro div_le_mono) simp
    moreover have "?a div 64 = ?b div 64" using d by (simp add: div_mult2_eq [symmetric])
    moreover have "?a = 64 * (?a div 64) + ?a mod 64" "?b = 64 * (?b div 64) + ?b mod 64"
      by simp_all
    ultimately show ?thesis by linarith
  qed
  then show ?thesis
    by (simp add: word_le_nat_alt flagged_rank [OF f(1) pr] flagged_rank [OF f(2) pr])
qed

section \<open>Insertion into the sparse list\<close>

lemma lower_bound_split:
  obtains (at_end) "lower_bound xs v = length xs" "\<forall>x\<in>set xs. x < v"
  | (found) pre y ys where "xs = pre @ y # ys" "lower_bound xs v = length pre"
      "\<forall>x\<in>set pre. x < v" "v \<le> y"
proof (cases "dropWhile (\<lambda>x. x < v) xs")
  case Nil
  then have tw: "takeWhile (\<lambda>x. x < v) xs = xs"
    by (metis append_Nil2 takeWhile_dropWhile_id)
  have "lower_bound xs v = length xs" by (simp only: lower_bound_def tw)
  moreover have "\<forall>x\<in>set xs. x < v"
    using tw by (simp add: takeWhile_eq_all_conv)
  ultimately show ?thesis by (rule at_end)
next
  case (Cons y ys)
  let ?pre = "takeWhile (\<lambda>x. x < v) xs"
  have "xs = ?pre @ y # ys" using Cons by (metis takeWhile_dropWhile_id)
  moreover have "lower_bound xs v = length ?pre" by (simp add: lower_bound_def)
  moreover have "\<forall>x\<in>set ?pre. x < v" by (metis set_takeWhileD)
  moreover have "\<not> y < v" using Cons by (metis hd_dropWhile list.sel(1) list.distinct(1))
  then have "v \<le> y" by simp
  ultimately show ?thesis by (rule found)
qed

lemma addHashToSparseList_at_end:
  "lower_bound xs v = length xs \<Longrightarrow> addHashToSparseList xs v pp = xs @ [v]"
  by (simp add: addHashToSparseList_def)

lemma addHashToSparseList_found:
  assumes "lower_bound (pre @ y # ys) v = length pre"
  shows "addHashToSparseList (pre @ y # ys) v pp =
     (if y \<noteq> v then
        if extractHighBits32 v pp = extractHighBits32 y pp then
          if (y AND 1) = (v AND 1) then
            if v AND 1 = 1 then (if v > y then pre @ v # ys else pre @ y # ys)
            else (if v < y then pre @ v # ys else pre @ y # ys)
          else if v AND 1 = 1 then pre @ v # ys
          else pre @ y # ys
        else pre @ v # y # ys
      else pre @ y # ys)"
  by (simp add: addHashToSparseList_def assms Let_def)

lemma addHashToSparseList_sorted:
  assumes "sorted_wrt (<) xs"
  shows "sorted_wrt (<) (addHashToSparseList xs v pp)"
proof (cases rule: lower_bound_split [of xs v])
  case at_end
  with assms show ?thesis
    by (simp add: addHashToSparseList_at_end sorted_wrt_append)
next
  case (found pre y ys)
  from assms found(1) have s: "sorted_wrt (<) pre" "sorted_wrt (<) ys"
    "\<forall>b\<in>set ys. y < b" "\<forall>a\<in>set pre. a < y" "\<forall>a\<in>set pre. \<forall>b\<in>set ys. a < b"
    by (auto simp add: sorted_wrt_append)
  have below: "\<forall>a\<in>set pre. a < v" by (rule found(3))
  have above: "\<forall>b\<in>set ys. v < b" using s(3) found(4) by auto
  have ins: "sorted_wrt (<) (pre @ v # y # ys)" if "y \<noteq> v"
    using that s below above found(4) by (auto simp add: sorted_wrt_append)
  have rep: "sorted_wrt (<) (pre @ v # ys)"
    using s below above by (auto simp add: sorted_wrt_append)
  have keep: "sorted_wrt (<) (pre @ y # ys)" using assms found(1) by simp
  show ?thesis
    unfolding found(1) addHashToSparseList_found [OF found(2) [unfolded found(1)]]
    using ins rep keep by simp
qed

lemma addHashToSparseList_set:
  "set (addHashToSparseList xs v pp) \<subseteq> insert v (set xs)"
proof (cases rule: lower_bound_split [of xs v])
  case at_end
  then show ?thesis by (simp add: addHashToSparseList_at_end)
next
  case (found pre y ys)
  show ?thesis
    unfolding found(1) addHashToSparseList_found [OF found(2) [unfolded found(1)]]
    by auto
qed

lemma addHashToSparseList_covers:
  assumes pr: "4 \<le> prec" "prec \<le> 18"
    and okv: "encoded_ok prec v" and ok: "\<forall>e\<in>set xs. encoded_ok prec e"
    and e: "e \<in> insert v (set xs)"
  shows "\<exists>e'\<in>set (addHashToSparseList xs v pPrime).
           reg_idx prec e' = reg_idx prec e \<and> reg_rank prec e \<le> reg_rank prec e'"
proof (cases rule: lower_bound_split [of xs v])
  case at_end
  with e show ?thesis by (auto simp add: addHashToSparseList_at_end)
next
  case (found pre y ys)
  note res = addHashToSparseList_found [OF found(2) [unfolded found(1)], of pPrime]
  have oky: "encoded_ok prec y" using ok found(1) by simp
  show ?thesis
  proof (cases "y \<noteq> v \<and> extractHighBits32 v pPrime = extractHighBits32 y pPrime")
    case False
    then have "e \<in> set (addHashToSparseList xs v pPrime)"
      using e unfolding found(1) res by auto
    then show ?thesis by blast
  next
    case True
    then have lt: "v < y" and sp: "extractHighBits32 v pPrime = extractHighBits32 y pPrime"
      using found(4) by auto
    from lt have nlt: "\<not> y < v" "y \<noteq> v" by auto
    have fl: "(v AND 1 = 1) = (y AND 1 = 1)" by (rule same_prefix_flag [OF sp okv oky])
    have idx: "reg_idx prec v = reg_idx prec y"
      by (rule same_prefix_idx [OF sp]) (use pr in simp)
    show ?thesis
    proof (cases "v AND 1 = 1")
      case True
      with fl have fy: "y AND 1 = 1" by simp
      have r: "addHashToSparseList xs v pPrime = xs"
        unfolding found(1) res using True fy lt nlt sp by simp
      have "reg_rank prec v \<le> reg_rank prec y"
        by (rule same_prefix_rank_flagged [OF sp True fy lt]) (use pr in simp)
      moreover have "y \<in> set xs" using found(1) by simp
      ultimately show ?thesis using e idx unfolding r by auto
    next
      case False
      with fl have fy: "y AND 1 \<noteq> 1" by simp
      have and1: "w AND 1 = 0 \<or> w AND 1 = 1" for w :: uint32
        by (simp add: and_one_eq mod_2_eq_odd)
      from False fy and1 [of v] and1 [of y] have same: "(y AND 1) = (v AND 1)" by auto
      have r: "addHashToSparseList xs v pPrime = pre @ v # ys"
        unfolding found(1) res using False same lt nlt sp by simp
      have "reg_rank prec v = reg_rank prec y"
        by (rule same_prefix_rank_unflagged [OF sp okv False fy pr(2)])
      then show ?thesis using e idx found(1) unfolding r by auto
    qed
  qed
qed

lemma finite_ranks_at [simp]: "finite (ranks_at prec es i)"
  by (simp add: ranks_at_def)

lemma ranks_at_append: "ranks_at prec (xs @ ys) i = ranks_at prec xs i \<union> ranks_at prec ys i"
  by (auto simp add: ranks_at_def)

lemma finite_contrib [simp]: "finite (contrib s i)"
  by (simp add: contrib_def)

lemma Max_insert_0:
  fixes S :: "uint8 set"
  assumes "finite S"
  shows "Max (insert 0 (insert a S)) = Max (insert a S)"
  using assms by (simp add: max_def)

lemma Max_insert_Max:
  fixes S T :: "uint8 set"
  assumes "finite S" "finite T"
  shows "Max (insert (Max (insert x S)) T) = Max (insert x (S \<union> T))"
proof (cases "T = {}")
  case True
  then show ?thesis by simp
next
  case False
  have "Max (insert x S \<union> T) = max (Max (insert x S)) (Max T)"
    using assms False by (intro Max_Un) simp_all
  moreover have "Max (insert (Max (insert x S)) T) = max (Max (insert x S)) (Max T)"
    using assms False by simp
  ultimately show ?thesis by simp
qed

lemma max_Max_insert:
  fixes S :: "uint8 set"
  assumes "finite S"
  shows "max (Max (insert x S)) b = Max (insert x (S \<union> {b}))"
  using Max_insert_Max [OF assms, of "{b}" x] by (simp add: max.commute)

lemma fold_insert_set:
  "set (fold (\<lambda>val vec. addHashToSparseList vec val pp) ys xs) \<subseteq> set xs \<union> set ys"
proof (induction ys arbitrary: xs)
  case Nil
  then show ?case by simp
next
  case (Cons y ys)
  from Cons.IH [of "addHashToSparseList xs y pp"] addHashToSparseList_set [of xs y pp]
  show ?case by auto
qed

lemma fold_insert_sorted:
  "sorted_wrt (<) xs \<Longrightarrow>
     sorted_wrt (<) (fold (\<lambda>val vec. addHashToSparseList vec val pp) ys xs)"
  by (induction ys arbitrary: xs) (simp_all add: addHashToSparseList_sorted)

lemma fold_insert_covers:
  assumes pr: "4 \<le> prec" "prec \<le> 18"
  shows "\<forall>e\<in>set xs \<union> set ys. encoded_ok prec e \<Longrightarrow> e \<in> set xs \<union> set ys \<Longrightarrow>
     \<exists>e'\<in>set (fold (\<lambda>val vec. addHashToSparseList vec val pPrime) ys xs).
        reg_idx prec e' = reg_idx prec e \<and> reg_rank prec e \<le> reg_rank prec e'"
proof (induction ys arbitrary: xs e)
  case Nil
  then show ?case by auto
next
  case (Cons y ys)
  let ?xs = "addHashToSparseList xs y pPrime"
  have okx: "\<forall>e\<in>set xs. encoded_ok prec e" and oky: "encoded_ok prec y"
    using Cons.prems(1) by simp_all
  have ok': "\<forall>e\<in>set ?xs \<union> set ys. encoded_ok prec e"
    using Cons.prems(1) addHashToSparseList_set [of xs y pPrime] by auto
  show ?case
  proof (cases "e \<in> set ys")
    case True
    then have "e \<in> set ?xs \<union> set ys" by simp
    from Cons.IH [OF ok' this] show ?thesis by simp
  next
    case False
    with Cons.prems(2) have "e \<in> insert y (set xs)" by auto
    from addHashToSparseList_covers [OF pr oky okx this]
    obtain e1 where e1: "e1 \<in> set ?xs" "reg_idx prec e1 = reg_idx prec e"
      "reg_rank prec e \<le> reg_rank prec e1" by blast
    then have "e1 \<in> set ?xs \<union> set ys" by simp
    from Cons.IH [OF ok' this]
    obtain e' where "e' \<in> set (fold (\<lambda>val vec. addHashToSparseList vec val pPrime) ys ?xs)"
      "reg_idx prec e' = reg_idx prec e1" "reg_rank prec e1 \<le> reg_rank prec e'" by blast
    with e1 show ?thesis by (auto intro: order_trans)
  qed
qed

lemma cover_Max:
  assumes sub: "set xs \<subseteq> set ys"
    and cov: "\<And>e. e \<in> set ys \<Longrightarrow>
       \<exists>e'\<in>set xs. reg_idx prec e' = reg_idx prec e \<and> reg_rank prec e \<le> reg_rank prec e'"
  shows "Max (insert x (ranks_at prec xs i)) = Max (insert x (ranks_at prec ys i))"
proof (rule antisym)
  have "ranks_at prec xs i \<subseteq> ranks_at prec ys i" using sub by (auto simp add: ranks_at_def)
  then show "Max (insert x (ranks_at prec xs i)) \<le> Max (insert x (ranks_at prec ys i))"
    by (intro Max_mono) auto
  have "a \<le> Max (insert x (ranks_at prec xs i))" if "a \<in> insert x (ranks_at prec ys i)" for a
  proof (cases "a = x")
    case True
    then show ?thesis by simp
  next
    case False
    with that obtain e where e: "e \<in> set ys" "reg_idx prec e = i" "a = reg_rank prec e"
      by (auto simp add: ranks_at_def)
    from cov [OF e(1)] obtain e' where e': "e' \<in> set xs" "reg_idx prec e' = reg_idx prec e"
      "reg_rank prec e \<le> reg_rank prec e'" by blast
    then have "reg_rank prec e' \<in> insert x (ranks_at prec xs i)"
      using e(2) by (auto simp add: ranks_at_def)
    then have "reg_rank prec e' \<le> Max (insert x (ranks_at prec xs i))" by (intro Max_ge) simp_all
    with e' e(3) show ?thesis by simp
  qed
  then show "Max (insert x (ranks_at prec ys i)) \<le> Max (insert x (ranks_at prec xs i))"
    by (intro Max.boundedI) simp_all
qed

lemma fold_insert_Max:
  assumes "4 \<le> prec" "prec \<le> 18" "\<forall>e\<in>set xs \<union> set ys. encoded_ok prec e"
  shows "Max (insert x (ranks_at prec (fold (\<lambda>val vec. addHashToSparseList vec val pPrime) ys xs) i))
       = Max (insert x (ranks_at prec xs i \<union> ranks_at prec ys i))"
proof -
  have "Max (insert x (ranks_at prec (fold (\<lambda>val vec. addHashToSparseList vec val pPrime) ys xs) i))
       = Max (insert x (ranks_at prec (xs @ ys) i))"
  proof (rule cover_Max)
    show "set (fold (\<lambda>val vec. addHashToSparseList vec val pPrime) ys xs) \<subseteq> set (xs @ ys)"
      using fold_insert_set [of pPrime ys xs] by simp
    fix e assume "e \<in> set (xs @ ys)"
    then have "e \<in> set xs \<union> set ys" by simp
    from fold_insert_covers [OF assms(1,2,3) this]
    show "\<exists>e'\<in>set (fold (\<lambda>val vec. addHashToSparseList vec val pPrime) ys xs).
        reg_idx prec e' = reg_idx prec e \<and> reg_rank prec e \<le> reg_rank prec e'" .
  qed
  then show ?thesis by (simp only: ranks_at_append)
qed

section \<open>Merging\<close>

lemma force_dense_eq:
  assumes "4 \<le> p s" "p s \<le> 18" "m s = 2 ^ p s"
  shows "force_dense s =
     (None, if sparse s
            then s\<lparr>sparse := False,
                   M := snd (addToRegisters_loop (p s) (sparseList s) (replicate (m s) 0)),
                   sparseList := []\<rparr>
            else s)"
  by (simp add: force_dense_def switch_eq [OF assms])

lemma merge_registers_nth:
  assumes "length other_regs = length regs" "i < length regs"
  shows "snd (merge_registers 0 other_regs regs) ! i = max (regs ! i) (other_regs ! i)"
  using merge_registers_ok [of 0 other_regs regs] assms by simp

lemma merge_registers_length:
  assumes "length other_regs = length regs"
  shows "length (snd (merge_registers 0 other_regs regs)) = length regs"
  using merge_registers_ok [of 0 other_regs regs] assms by simp

lemma merged_registers:
  assumes wa: "wf_sketch a" and wb: "wf_sketch b" and pp: "p b = p a"
  shows "\<exists>ab dab. add_other a b = (None, ab) \<and> force_dense ab = (None, dab)
           \<and> \<not> sparse dab \<and> length (M dab) = 2 ^ p a
           \<and> (\<forall>i<2 ^ p a. M dab ! i = Max (insert 0 (contrib a i \<union> contrib b i)))"
proof -
  from wa have pa: "4 \<le> p a" "p a \<le> 18" "m a = 2 ^ p a"
    by (simp_all add: wf_sketch_def)
  let ?zeros = "replicate (m a) (0 :: uint8)"
  let ?ins = "fold (\<lambda>val vec. addHashToSparseList vec val pPrime)"
  have loop_len: "length (snd (addToRegisters_loop (p a) es regs)) = 2 ^ p a"
    if "length regs = 2 ^ p a" for es regs
    using loop_ok [OF pa(1,2) that, of es] that by simp
  have loop_at: "snd (addToRegisters_loop (p a) es regs) ! i
      = Max (insert (regs ! i) (ranks_at (p a) es i))"
    if "length regs = 2 ^ p a" "i < 2 ^ p a" for es regs i
    using loop_nth [OF pa(1,2) that(1), of i es] that by simp
  have zlen: "length ?zeros = 2 ^ p a" using pa(3) by simp
  have zat: "?zeros ! i = 0" if "i < 2 ^ p a" for i using that pa(3) by simp
  show ?thesis
  proof (cases "sparse a")
    case False
    then have la: "length (M a) = 2 ^ p a" using wa by (simp add: wf_sketch_def)
    show ?thesis
    proof (cases "sparse b")
      case True
      let ?regs = "snd (addToRegisters_loop (p a) (sparseList b) (M a))"
      have eq: "add_other a b = (None, a\<lparr>M := ?regs\<rparr>)"
        by (rule add_other_dense_sparse [OF wa False True pp])
      have fd: "force_dense (a\<lparr>M := ?regs\<rparr>) = (None, a\<lparr>M := ?regs\<rparr>)"
        using False by (simp add: force_dense_def)
      have "?regs ! i = Max (insert 0 (contrib a i \<union> contrib b i))" if "i < 2 ^ p a" for i
        using loop_at [OF la that, of "sparseList b"] False True pp
        by (simp add: contrib_def Max_insert_0)
      then show ?thesis using eq fd False loop_len [OF la] by simp
    next
      case sb: False
      then have lb: "length (M b) = 2 ^ p a" using wb pp by (simp add: wf_sketch_def)
      let ?regs = "snd (merge_registers 0 (M b) (M a))"
      have eq: "add_other a b = (None, a\<lparr>M := ?regs\<rparr>)"
        by (rule add_other_dense_dense [OF wa False wb sb pp])
      have fd: "force_dense (a\<lparr>M := ?regs\<rparr>) = (None, a\<lparr>M := ?regs\<rparr>)"
        using False by (simp add: force_dense_def)
      have "?regs ! i = Max (insert 0 (contrib a i \<union> contrib b i))" if "i < 2 ^ p a" for i
        using merge_registers_nth [of "M b" "M a" i] la lb that False sb
        by (auto simp add: contrib_def max_def)
      moreover have "length ?regs = 2 ^ p a"
        using merge_registers_length [of "M b" "M a"] la lb by simp
      ultimately show ?thesis using eq fd False by simp
    qed
  next
    case True
    let ?da = "snd (addToRegisters_loop (p a) (sparseList a) ?zeros)"
    have lda: "length ?da = 2 ^ p a" by (rule loop_len [OF zlen])
    have da_at: "?da ! i = Max (insert 0 (ranks_at (p a) (sparseList a) i))"
      if "i < 2 ^ p a" for i
      using loop_at [OF zlen that, of "sparseList a"] zat [OF that] by simp
    show ?thesis
    proof (cases "sparse b")
      case sb: False
      then have lb: "length (M b) = 2 ^ p a" using wb pp by (simp add: wf_sketch_def)
      let ?regs = "snd (merge_registers 0 (M b) ?da)"
      let ?ab = "a\<lparr>sparse := False, M := ?regs, sparseList := []\<rparr>"
      have eq: "add_other a b = (None, ?ab)"
        by (rule add_other_sparse_dense [OF wa True wb sb pp])
      have fd: "force_dense ?ab = (None, ?ab)" by (simp add: force_dense_def)
      have "?regs ! i = Max (insert 0 (contrib a i \<union> contrib b i))" if "i < 2 ^ p a" for i
        using merge_registers_nth [of "M b" ?da i] lda lb that True sb da_at [OF that]
        by (simp add: contrib_def max_Max_insert)
      moreover have "length ?regs = 2 ^ p a"
        using merge_registers_length [of "M b" ?da] lda lb by simp
      ultimately show ?thesis using eq fd by simp
    next
      case sb: True
      show ?thesis
      proof (cases "length (sparseList a) + length (sparseList b) > m a")
        case big: True
        let ?regs = "snd (addToRegisters_loop (p a) (sparseList b) ?da)"
        let ?ab = "a\<lparr>sparse := False, M := ?regs, sparseList := []\<rparr>"
        have eq: "add_other a b = (None, ?ab)"
          by (rule add_other_sparse_big [OF wa True sb pp big])
        have fd: "force_dense ?ab = (None, ?ab)" by (simp add: force_dense_def)
        have "?regs ! i = Max (insert 0 (contrib a i \<union> contrib b i))" if "i < 2 ^ p a" for i
          using loop_at [OF lda that, of "sparseList b"] da_at [OF that] True sb pp
          by (simp add: contrib_def Max_insert_Max)
        then show ?thesis using eq fd loop_len [OF lda] by simp
      next
        case False
        then have small: "length (sparseList a) + length (sparseList b) \<le> m a" by simp
        let ?xs = "?ins (sparseList b) (sparseList a)"
        let ?ab = "a\<lparr>sparseList := ?xs\<rparr>"
        let ?regs = "snd (addToRegisters_loop (p a) ?xs ?zeros)"
        let ?dab = "?ab\<lparr>sparse := False, M := ?regs, sparseList := []\<rparr>"
        have eq: "add_other a b = (None, ?ab)"
          by (rule add_other_sparse_small [OF True sb pp small])
        have fd: "force_dense ?ab = (None, ?dab)"
          using force_dense_eq [of ?ab] pa True by simp
        have ok: "\<forall>e\<in>set (sparseList a) \<union> set (sparseList b). encoded_ok (p a) e"
          using wa wb True sb pp by (auto simp add: wf_sketch_def list_all_iff)
        have "?regs ! i = Max (insert 0 (contrib a i \<union> contrib b i))" if "i < 2 ^ p a" for i
          using loop_at [OF zlen that, of ?xs] zat [OF that] True sb pp
            fold_insert_Max [OF pa(1,2) ok, of 0 i]
          by (simp add: contrib_def)
        then show ?thesis using eq fd loop_len [OF zlen] by simp
      qed
    qed
  qed
qed

text \<open>
  C6: for two well-formed sketches of equal precision, merging the second into the first
  and the first into the second both return normally, and once both results are forced
  into the dense representation their register arrays are equal.
\<close>

theorem merge_commutative:
  assumes "wf_sketch a" "wf_sketch b" "p a = p b"
  shows "\<exists>ab ba dab dba. add_other a b = (None, ab) \<and> add_other b a = (None, ba)
           \<and> force_dense ab = (None, dab) \<and> force_dense ba = (None, dba)
           \<and> \<not> sparse dab \<and> \<not> sparse dba \<and> M dab = M dba"
proof -
  from merged_registers [OF assms(1,2)] assms(3)
  obtain ab dab where ab: "add_other a b = (None, ab)" "force_dense ab = (None, dab)"
    "\<not> sparse dab" "length (M dab) = 2 ^ p a"
    "\<forall>i<2 ^ p a. M dab ! i = Max (insert 0 (contrib a i \<union> contrib b i))"
    by auto
  from merged_registers [OF assms(2,1)] assms(3)
  obtain ba dba where ba: "add_other b a = (None, ba)" "force_dense ba = (None, dba)"
    "\<not> sparse dba" "length (M dba) = 2 ^ p a"
    "\<forall>i<2 ^ p a. M dba ! i = Max (insert 0 (contrib b i \<union> contrib a i))"
    by auto
  have "M dab = M dba"
  proof (rule nth_equalityI)
    show "length (M dab) = length (M dba)" using ab(4) ba(4) by simp
    fix i assume "i < length (M dab)"
    then have "i < 2 ^ p a" using ab(4) by simp
    with ab(5) ba(5) show "M dab ! i = M dba ! i" by (simp add: Un_commute)
  qed
  with ab ba show ?thesis by blast
qed

theorem merge_commutative_witness:
  "wf_sketch \<lparr>p = 4, m = 16, M = [], sparse = True, sparseList = [3], bit_mixer = id\<rparr>
   \<and> wf_sketch \<lparr>p = 4, m = 16, M = [], sparse = True, sparseList = [5], bit_mixer = id\<rparr>
   \<and> (\<exists>ab ba dab dba.
        add_other \<lparr>p = 4, m = 16, M = [], sparse = True, sparseList = [3], bit_mixer = id\<rparr>
                  \<lparr>p = 4, m = 16, M = [], sparse = True, sparseList = [5], bit_mixer = id\<rparr>
          = (None, ab)
      \<and> add_other \<lparr>p = 4, m = 16, M = [], sparse = True, sparseList = [5], bit_mixer = id\<rparr>
                  \<lparr>p = 4, m = 16, M = [], sparse = True, sparseList = [3], bit_mixer = id\<rparr>
          = (None, ba)
      \<and> force_dense ab = (None, dab) \<and> force_dense ba = (None, dba)
      \<and> \<not> sparse dab \<and> \<not> sparse dba \<and> M dab = M dba)"
  using merge_commutative
    [of "\<lparr>p = 4, m = 16, M = [], sparse = True, sparseList = [3], bit_mixer = id\<rparr>"
        "\<lparr>p = 4, m = 16, M = [], sparse = True, sparseList = [5], bit_mixer = id\<rparr>"]
  by (simp add: wf_sketch_def encoded_ok_def)

section \<open>The methods keep a sketch well-formed\<close>

lemma encode_index_part:
  "push_bit 7 (drop_bit 7 (encodeHashIn32Bit h prec pPrime)) = index25 h"
proof (rule bit_word_eqI)
  fix n assume "n < LENGTH(32)"
  show "bit (push_bit 7 (drop_bit 7 (encodeHashIn32Bit h prec pPrime))) n = bit (index25 h) n"
  proof (cases "7 \<le> n")
    case True
    with bit_encode_high [OF True, of h prec] show ?thesis
      by (simp add: bit_simps bit_index25)
  next
    case False
    then show ?thesis by (simp add: bit_simps bit_index25)
  qed
qed

lemma encode_flag:
  "(encodeHashIn32Bit h prec pPrime AND 1 = 1) = (push_bit prec (index25 h) = 0)"
  by (simp add: encode_cases flag_iff_bit0 bit_or_iff bit_index25 bit_rank_field)

lemma encoded_ok_encode: "encoded_ok prec (encodeHashIn32Bit h prec pPrime)"
  by (simp only: encoded_ok_def encode_index_part encode_flag)

lemma wf_new:
  assumes "new_HyperLogLogPlusMinus precision sp mixer = Inr s"
  shows "wf_sketch s"
proof -
  from assms have r: "4 \<le> precision" "precision \<le> 18"
    and s: "s = \<lparr>p = unat precision, m = 2 ^ unat precision,
                M = (if sp then [] else replicate (2 ^ unat precision) 0),
                sparse = sp, sparseList = [], bit_mixer = mixer\<rparr>"
    by (auto simp add: new_HyperLogLogPlusMinus_def not_less split: if_splits)
  from r have "4 \<le> unat precision" "unat precision \<le> 18"
    by (simp_all add: word_le_nat_alt)
  then show ?thesis by (simp add: s wf_sketch_def)
qed

lemma wf_reset: "wf_sketch s \<Longrightarrow> wf_sketch (reset s)"
  by (simp add: wf_sketch_def reset_def)

lemma wf_add:
  assumes "wf_sketch s"
  shows "fst (add s item) = None \<and> wf_sketch (snd (add s item))"
proof (cases "sparse s")
  case True
  from assms have a: "4 \<le> p s" "p s \<le> 18" "m s = 2 ^ p s"
    by (simp_all add: wf_sketch_def)
  let ?v = "encodeHashIn32Bit (bit_mixer s item) (p s) pPrime"
  let ?xs = "addHashToSparseList (sparseList s) ?v pPrime"
  have "sorted_wrt (<) ?xs"
    using assms True by (intro addHashToSparseList_sorted) (simp add: wf_sketch_def)
  moreover have "list_all (encoded_ok (p s)) ?xs"
    using assms True addHashToSparseList_set [of "sparseList s" ?v pPrime]
      encoded_ok_encode [of "p s" "bit_mixer s item"]
    by (auto simp add: wf_sketch_def list_all_iff)
  moreover have "length (snd (addToRegisters_loop (p s) ?xs (replicate (m s) 0))) = m s"
    using loop_ok [OF a(1,2), of "replicate (m s) 0" ?xs] a(3) by simp
  ultimately show ?thesis
    unfolding add_sparse_eq [OF assms True] using a True
    by (simp add: Let_def wf_sketch_def)
next
  case False
  from mono_add [OF assms False, of 0 item] assms False show ?thesis
    by (auto simp add: wf_sketch_def add_dense_eq [OF assms False] Let_def)
qed

lemma wf_add_other:
  assumes "wf_sketch a" "wf_sketch b" "p b = p a"
  shows "fst (add_other a b) = None \<and> wf_sketch (snd (add_other a b))"
proof -
  from assms(1) have pa: "4 \<le> p a" "p a \<le> 18" "m a = 2 ^ p a"
    by (simp_all add: wf_sketch_def)
  have loop_len: "length (snd (addToRegisters_loop (p a) es regs)) = 2 ^ p a"
    if "length regs = 2 ^ p a" for es regs
    using loop_ok [OF pa(1,2) that, of es] that by simp
  have zlen: "length (replicate (m a) (0::uint8)) = 2 ^ p a" using pa(3) by simp
  show ?thesis
  proof (cases "sparse a")
    case False
    then have la: "length (M a) = 2 ^ p a" using assms(1) by (simp add: wf_sketch_def)
    show ?thesis
    proof (cases "sparse b")
      case True
      show ?thesis
        unfolding add_other_dense_sparse [OF assms(1) False True assms(3)]
        using pa False loop_len [OF la] by (simp add: wf_sketch_def)
    next
      case sb: False
      then have "length (M b) = length (M a)" using assms(2,3) la by (simp add: wf_sketch_def)
      from merge_registers_length [OF this] show ?thesis
        unfolding add_other_dense_dense [OF assms(1) False assms(2) sb assms(3)]
        using pa False la by (simp add: wf_sketch_def)
    qed
  next
    case True
    show ?thesis
    proof (cases "sparse b")
      case sb: False
      let ?da = "snd (addToRegisters_loop (p a) (sparseList a) (replicate (m a) 0))"
      have "length (M b) = length ?da"
        using assms(2,3) sb loop_len [OF zlen, of "sparseList a"] by (simp add: wf_sketch_def)
      from merge_registers_length [OF this] show ?thesis
        unfolding add_other_sparse_dense [OF assms(1) True assms(2) sb assms(3)]
        using pa loop_len [OF zlen, of "sparseList a"] by (simp add: wf_sketch_def)
    next
      case sb: True
      show ?thesis
      proof (cases "length (sparseList a) + length (sparseList b) > m a")
        case big: True
        show ?thesis
          unfolding add_other_sparse_big [OF assms(1) True sb assms(3) big]
          using pa loop_len [OF loop_len [OF zlen]] by (simp add: wf_sketch_def)
      next
        case False
        then have small: "length (sparseList a) + length (sparseList b) \<le> m a" by simp
        let ?xs = "fold (\<lambda>val vec. addHashToSparseList vec val pPrime)
                     (sparseList b) (sparseList a)"
        have "sorted_wrt (<) ?xs"
          using assms(1) True by (intro fold_insert_sorted) (simp add: wf_sketch_def)
        moreover have "list_all (encoded_ok (p a)) ?xs"
          using assms True sb fold_insert_set [of pPrime "sparseList b" "sparseList a"]
          by (auto simp add: wf_sketch_def list_all_iff)
        ultimately show ?thesis
          unfolding add_other_sparse_small [OF True sb assms(3) small]
          using pa True by (simp add: wf_sketch_def)
      qed
    qed
  qed
qed

end
